theory Spec2Isabelle
  imports Main
begin

section \<open>The order book of \<open>src/orderbook.py\<close>\<close>

text \<open>
  A shallow embedding of the class \<open>Orderbook\<close> and of the two records of
  \<open>src/constants.py\<close>. Conventions of the embedding:
  \<^item> \<open>uuid.uuid4()\<close> is a fresh-identifier supply. It is a counter \<open>uuid_next\<close> kept
    in the state: each constructed \<open>Order\<close> or \<open>Deal\<close> takes the current value
    as its identifier and increments the counter.
  \<^item> The \<open>timestamp\<close> fields, \<open>_latest_order_dt\<close> and \<open>_DEBUG_creation_time\<close> are
    written once and read by no method; they are left out.
  \<^item> \<open>_DEBUG_disable_cache\<close> is assigned \<open>True\<close> in \<open>__init__\<close> and nowhere else; it is the
    constant \<open>DEBUG_disable_cache\<close>.
  \<^item> A \<open>SortedDict\<close> is an association list kept sorted by the store's key function; a
    \<open>deque\<close> is a list whose head is the left end.
  \<^item> An exception is a value \<open>Raised e\<close>; a call that never returns is \<open>None\<close>.
  \<^item> Names with a leading underscore lose it (\<open>_short_volume\<close> is \<open>short_volume\<close>).
\<close>

subsection \<open>Records of \<open>constants.py\<close>\<close>

record Deal =
  volume :: int
  price :: int
  order_id_client :: nat
  order_id_market :: nat
  comment :: string
  deal_id :: nat

record Order =
  owner_id :: string
  is_buy :: bool
  price :: int
  volume :: int
  comment :: string
  order_id :: nat

datatype error = StopIteration | KeyError | AssertionError string

datatype 'a outcome = Raised error | Returned 'a

subsection \<open>\<open>SortedDict\<close>\<close>

type_synonym 'v SortedDict = "(int \<times> 'v) list"

text \<open>\<open>d[k] = v\<close>: replaces the value of an existing key, else inserts the key at its
  place in the order of the key function \<open>kf\<close>.\<close>

fun sd_setitem :: "(int \<Rightarrow> int) \<Rightarrow> int \<Rightarrow> 'v \<Rightarrow> 'v SortedDict \<Rightarrow> 'v SortedDict" where
  "sd_setitem kf k v [] = [(k, v)]"
| "sd_setitem kf k v ((k', v') # d) =
     (if k = k' then (k, v) # d
      else if kf k < kf k' then (k, v) # (k', v') # d
      else (k', v') # sd_setitem kf k v d)"

text \<open>\<open>d[k]\<close>, which raises \<open>KeyError\<close> on a missing key, and \<open>k in d\<close>.\<close>

definition sd_getitem :: "'v SortedDict \<Rightarrow> int \<Rightarrow> error + 'v" where
  "sd_getitem d k = (case map_of d k of None \<Rightarrow> Inl KeyError | Some v \<Rightarrow> Inr v)"

definition sd_contains :: "'v SortedDict \<Rightarrow> int \<Rightarrow> bool" where
  "sd_contains d k = (map_of d k \<noteq> None)"

text \<open>\<open>next(iter(d))\<close>: the first key, \<open>StopIteration\<close> on an empty dictionary.\<close>

definition sd_first_key :: "'v SortedDict \<Rightarrow> error + int" where
  "sd_first_key d = (case d of [] \<Rightarrow> Inl StopIteration | (k, v) # _ \<Rightarrow> Inr k)"

text \<open>In-place mutation of the object stored under \<open>k\<close> (the deque \<open>d[k]\<close> is changed,
  the dictionary keeps its keys).\<close>

definition sd_mutate :: "int \<Rightarrow> ('v \<Rightarrow> 'v) \<Rightarrow> 'v SortedDict \<Rightarrow> 'v SortedDict" where
  "sd_mutate k f d = map (\<lambda>(k', v). if k' = k then (k', f v) else (k', v)) d"

definition bids_key :: "int \<Rightarrow> int" where
  "bids_key x = - x"

definition asks_key :: "int \<Rightarrow> int" where
  "asks_key x = x"

subsection \<open>The state\<close>

record Orderbook =
  bids :: "Order list SortedDict"
  asks :: "Order list SortedDict"
  long_num_ords :: int
  short_num_ords :: int
  short_volume :: int
  long_volume :: int
  deals :: "Deal list"
  orders :: "Order list"
  uuid_next :: nat

definition DEBUG_disable_cache :: bool where
  "DEBUG_disable_cache = True"

definition get_max_bid_price :: "Orderbook \<Rightarrow> error + int" where
  "get_max_bid_price self = sd_first_key (bids self)"

definition get_min_ask_price :: "Orderbook \<Rightarrow> error + int" where
  "get_min_ask_price self = sd_first_key (asks self)"

definition get_long_num_ords :: "Orderbook \<Rightarrow> int" where
  "get_long_num_ords self = sum_list (map (\<lambda>ords. int (length ords)) (map snd (asks self)))"

definition get_short_num_ords :: "Orderbook \<Rightarrow> int" where
  "get_short_num_ords self = sum_list (map (\<lambda>ords. int (length ords)) (map snd (bids self)))"

definition get_total_long_volume :: "Orderbook \<Rightarrow> int" where
  "get_total_long_volume self =
     sum_list (map (\<lambda>ords. sum_list (map Order.volume ords)) (map snd (asks self)))"

definition get_total_short_volume :: "Orderbook \<Rightarrow> int" where
  "get_total_short_volume self =
     sum_list (map (\<lambda>ords. sum_list (map Order.volume ords)) (map snd (bids self)))"

text \<open>\<open>__init__\<close>: both stores empty, the cached counts and totals computed from them.\<close>

definition init :: Orderbook where
  "init =
     (let self0 = \<lparr>bids = [], asks = [], long_num_ords = 0, short_num_ords = 0,
                   short_volume = 0, long_volume = 0, deals = [], orders = [],
                   uuid_next = 0\<rparr>;
          self1 = self0\<lparr>long_num_ords := get_long_num_ords self0\<rparr>;
          self2 = self1\<lparr>short_num_ords := get_short_num_ords self1\<rparr>;
          self3 = self2\<lparr>short_volume := get_total_short_volume self2\<rparr>
      in self3\<lparr>long_volume := get_total_long_volume self3\<rparr>)"

text \<open>\<open>validate\<close>: the three assertions in the source's order.\<close>

definition validate :: "Orderbook \<Rightarrow> unit outcome" where
  "validate self =
     (if short_volume self \<noteq> get_total_short_volume self
        then Raised (AssertionError ''Volume mismatch for Short Orders!'')
      else if long_volume self \<noteq> get_total_long_volume self
        then Raised (AssertionError ''Volume mismatch for Long Orders!'')
      else if length (asks self) > 0 \<and> length (bids self) > 0 then
        (case get_min_ask_price self of
           Inl e \<Rightarrow> Raised e
         | Inr a \<Rightarrow>
            (case get_max_bid_price self of
               Inl e \<Rightarrow> Raised e
             | Inr b \<Rightarrow>
                if a > b then Returned ()
                else Raised (AssertionError ''ASKS and BIDS are mismatched!'')))
      else Returned ())"

subsection \<open>Object construction\<close>

definition create_new_order ::
  "Orderbook \<Rightarrow> string \<Rightarrow> bool \<Rightarrow> int \<Rightarrow> int \<Rightarrow> Order \<times> Orderbook" where
  "create_new_order self owner b p v =
     (let new_order = \<lparr>owner_id = owner, is_buy = b, price = p, volume = v,
                        comment = [], order_id = uuid_next self\<rparr>;
          self1 = self\<lparr>uuid_next := uuid_next self + 1\<rparr>
      in if \<not> DEBUG_disable_cache
         then (new_order, self1\<lparr>orders := orders self1 @ [new_order]\<rparr>)
         else (new_order, self1))"

definition create_new_deal ::
  "Orderbook \<Rightarrow> int \<Rightarrow> int \<Rightarrow> nat \<Rightarrow> nat \<Rightarrow> Deal \<times> Orderbook" where
  "create_new_deal self v p client market =
     (let new_deal = \<lparr>Deal.volume = v, Deal.price = p, order_id_client = client,
                       order_id_market = market, Deal.comment = [],
                       deal_id = uuid_next self\<rparr>;
          self1 = self\<lparr>uuid_next := uuid_next self + 1\<rparr>
      in if \<not> DEBUG_disable_cache
         then (new_deal, self1\<lparr>deals := deals self1 @ [new_deal]\<rparr>)
         else (new_deal, self1))"

subsection \<open>Integers in f-strings\<close>

text \<open>\<open>str(n)\<close> of a Python integer: decimal digits, a minus sign for a negative one.\<close>

definition digit_char :: "nat \<Rightarrow> char" where
  "digit_char d = ''0123456789'' ! d"

function str_nat :: "nat \<Rightarrow> string" where
  "str_nat n = (if n < 10 then [digit_char n] else str_nat (n div 10) @ [digit_char (n mod 10)])"
  by pat_completeness auto
termination
  by (relation "measure (\<lambda>n. n)") auto

definition str_int :: "int \<Rightarrow> string" where
  "str_int i = (if i < 0 then CHR ''-'' # str_nat (nat (- i)) else str_nat (nat i))"

subsection \<open>\<open>submit_limit_order\<close>\<close>

definition submit_limit_order ::
  "Orderbook \<Rightarrow> string \<Rightarrow> bool \<Rightarrow> int \<Rightarrow> int \<Rightarrow> (nat option \<times> string option) outcome \<times> Orderbook" where
  "submit_limit_order self owner b p v =
     (case (if b \<and> length (bids self) > 0
            then (case get_max_bid_price self of
                    Inl e \<Rightarrow> Some (Raised e)
                  | Inr max_bid_price \<Rightarrow>
                      if p \<le> max_bid_price
                      then Some (Returned (None,
                        Some (''Rejected order ask price '' @ [CHR 0x27] @ str_int p @ [CHR 0x27]
                              @ '', lower than '' @ str_int max_bid_price @ ''.'')))
                      else None)
            else None) of
        Some r \<Rightarrow> (r, self)
      | None \<Rightarrow>
     (case (if \<not> b \<and> length (asks self) > 0
            then (case get_min_ask_price self of
                    Inl e \<Rightarrow> Some (Raised e)
                  | Inr min_buy_price \<Rightarrow>
                      if p \<ge> min_buy_price
                      then Some (Returned (None,
                        Some (''Rejected order bid price '' @ [CHR 0x27] @ str_int p @ [CHR 0x27]
                              @ '', higher than '' @ str_int min_buy_price @ ''.'')))
                      else None)
            else None) of
        Some r \<Rightarrow> (r, self)
      | None \<Rightarrow>
         (let (new_order, self1) = create_new_order self owner b p v;
              self2 = (if b then self1\<lparr>long_volume := long_volume self1 + v\<rparr>
                       else self1\<lparr>short_volume := short_volume self1 + v\<rparr>);
              self3 = (if b
                       then (if \<not> sd_contains (asks self2) p
                             then self2\<lparr>asks := sd_setitem asks_key p [new_order] (asks self2)\<rparr>
                             else self2\<lparr>asks := sd_mutate p (\<lambda>q. q @ [new_order]) (asks self2)\<rparr>)
                       else (if \<not> sd_contains (bids self2) p
                             then self2\<lparr>bids := sd_setitem bids_key p [new_order] (bids self2)\<rparr>
                             else self2\<lparr>bids := sd_mutate p (\<lambda>q. q @ [new_order]) (bids self2)\<rparr>))
          in (Returned (Some (order_id new_order), None), self3))))"

subsection \<open>\<open>submit_market_order\<close>\<close>

text \<open>One pass of the body of the inner \<open>while\<close> loop, for the order \<open>order\<close> at the head
  of the queue \<open>order # rest\<close> of \<open>price_level\<close>. It returns the loop variables \<open>volume\<close> and
  \<open>deal_ids\<close>, the \<open>Deal\<close> objects constructed so far (the source keeps only their
  identifiers) and the state.\<close>

definition fill_head ::
  "Orderbook \<Rightarrow> string \<Rightarrow> bool \<Rightarrow> int \<Rightarrow> int \<Rightarrow> nat list \<Rightarrow> Deal list \<Rightarrow> Order \<Rightarrow> Order list
     \<Rightarrow> int \<times> nat list \<times> Deal list \<times> Orderbook" where
  "fill_head self owner b price_level vol deal_ids ds order rest =
     (let filled_volume = min (volume order) vol;
          (filling_order, self1) = create_new_order self owner b price_level filled_volume;
          (new_deal, self2) =
             create_new_deal self1 filled_volume price_level (order_id filling_order) (order_id order);
          deal_ids1 = deal_ids @ [deal_id new_deal];
          ds1 = ds @ [new_deal];
          vol1 = vol - filled_volume;
          self3 =
            (if filled_volume < volume order
             then self2\<lparr>bids := sd_mutate price_level
                                   (\<lambda>q. order\<lparr>volume := volume order - filled_volume\<rparr> # rest)
                                   (bids self2),
                        short_volume := short_volume self2 - filled_volume\<rparr>
             else self2\<lparr>bids := sd_mutate price_level (\<lambda>q. rest) (bids self2),
                        short_volume := short_volume self2 - volume order\<rparr>)
      in (vol1, deal_ids1, ds1, self3))"

datatype loop_exit = Fallthrough | Return "nat list" | Raise error

text \<open>The inner loop \<open>while len(self.bids[price_level]) > 0\<close>. It ends by the function's
  \<open>return\<close>, by the loop condition turning false, or by an exception.\<close>

function match_level ::
  "Orderbook \<Rightarrow> string \<Rightarrow> bool \<Rightarrow> int \<Rightarrow> int \<Rightarrow> nat list \<Rightarrow> Deal list
     \<Rightarrow> loop_exit \<times> int \<times> nat list \<times> Deal list \<times> Orderbook" where
  "match_level self owner b price_level vol deal_ids ds =
     (case sd_getitem (bids self) price_level of
        Inl e \<Rightarrow> (Raise e, vol, deal_ids, ds, self)
      | Inr [] \<Rightarrow> (Fallthrough, vol, deal_ids, ds, self)
      | Inr (order # rest) \<Rightarrow>
          (case fill_head self owner b price_level vol deal_ids ds order rest of
             (vol1, deal_ids1, ds1, self1) \<Rightarrow>
               if vol1 = 0 then (Return deal_ids1, vol1, deal_ids1, ds1, self1)
               else match_level self1 owner b price_level vol1 deal_ids1 ds1))"
  by pat_completeness auto

lemma sd_getitem_mutate:
  "sd_getitem d k = Inr q \<Longrightarrow> sd_getitem (sd_mutate k f d) k = Inr (f q)"
  unfolding sd_getitem_def sd_mutate_def
  by (induction d) (auto split: option.splits if_splits)

lemma fill_head_queue:
  assumes "sd_getitem (bids self) pl = Inr (hd_ord # rest)"
      and "(vol1, ids1, ds1, self1) = fill_head self owner b pl vol ids ds hd_ord rest"
      and "vol1 \<noteq> 0"
  shows "sd_getitem (bids self1) pl = Inr rest"
  using assms
  by (auto simp: fill_head_def create_new_order_def create_new_deal_def Let_def
        DEBUG_disable_cache_def sd_getitem_mutate split: if_splits)

text \<open>The inner loop ends: a pass that does not return has popped the head of the queue
  (a partial fill leaves \<open>volume = 0\<close> and returns).\<close>

termination match_level
  apply (relation "measure (\<lambda>(self, owner, b, pl, vol, ids, ds).
            case sd_getitem (bids self) pl of Inr q \<Rightarrow> length q | Inl e \<Rightarrow> 0)")
   apply simp
  apply clarsimp
  apply (frule (2) fill_head_queue)
  apply simp
  done

declare match_level.simps [simp del]

text \<open>The outer loop \<open>while True\<close>. Nothing bounds it, so it is a partial function: \<open>None\<close>
  is a loop that never ends. The result carries the returned pair or the exception, the
  \<open>Deal\<close> objects constructed, and the state.\<close>

partial_function (option) match_loop ::
  "Orderbook \<Rightarrow> string \<Rightarrow> bool \<Rightarrow> int \<Rightarrow> nat list \<Rightarrow> Deal list
     \<Rightarrow> ((nat list option \<times> string option) outcome \<times> Deal list \<times> Orderbook) option" where
  "match_loop self owner b vol deal_ids ds =
     (case get_max_bid_price self of
        Inl e \<Rightarrow> Some (Raised e, ds, self)
      | Inr price_level \<Rightarrow>
          (case match_level self owner b price_level vol deal_ids ds of
             (Return r, vol1, deal_ids1, ds1, self1) \<Rightarrow> Some (Returned (Some r, None), ds1, self1)
           | (Raise e, vol1, deal_ids1, ds1, self1) \<Rightarrow> Some (Raised e, ds1, self1)
           | (Fallthrough, vol1, deal_ids1, ds1, self1) \<Rightarrow>
               match_loop self1 owner b vol1 deal_ids1 ds1))"

declare match_loop.simps [code]

definition submit_market_order ::
  "Orderbook \<Rightarrow> string \<Rightarrow> bool \<Rightarrow> int
     \<Rightarrow> ((nat list option \<times> string option) outcome \<times> Deal list \<times> Orderbook) option" where
  "submit_market_order self owner b vol =
     (if \<not> b
        then Some (Returned (None, Some ''Short Market Orders currently not supported!''), [], self)
      else if b \<and> vol > short_volume self
        then Some (Returned (None,
               Some (''volume='' @ str_int vol @ ''>self._short_volume=''
                     @ str_int (short_volume self) @ ''!'')), [], self)
      else if \<not> b \<and> vol > long_volume self
        then Some (Returned (None,
               Some (''volume='' @ str_int vol @ ''>self._long_volume=''
                     @ str_int (long_volume self) @ ''!'')), [], self)
      else match_loop self owner b vol [] [])"

subsection \<open>Reachable states and scripts of operations\<close>

text \<open>The states the class can be in: \<open>__init__\<close>, then any calls of the two submission
  methods that come back, by \<open>return\<close> or by an exception. The queries and \<open>validate\<close>
  assign nothing.\<close>

inductive reachable :: "Orderbook \<Rightarrow> bool" where
  reachable_init: "reachable init"
| reachable_limit:
    "reachable s \<Longrightarrow> submit_limit_order s owner b p v = (out, s') \<Longrightarrow> reachable s'"
| reachable_market:
    "reachable s \<Longrightarrow> submit_market_order s owner b v = Some (out, ds, s') \<Longrightarrow> reachable s'"

text \<open>A script of submissions, run in order from a state. The ledger adds up what the
  script submitted: the volumes of all limit submissions, the volumes of the accepted ones,
  and the deals made. An exception ends the script; a market order that never returns
  gives \<open>None\<close>.\<close>

datatype op = Limit string bool int int | Market string bool int

record ledger =
  submitted :: int
  accepted :: int
  matched :: "Deal list"

definition ledger0 :: ledger where
  "ledger0 = \<lparr>submitted = 0, accepted = 0, matched = []\<rparr>"

fun run_ops :: "op list \<Rightarrow> Orderbook \<Rightarrow> ledger \<Rightarrow> (Orderbook \<times> ledger) option" where
  "run_ops [] s L = Some (s, L)"
| "run_ops (Limit owner b p v # ops) s L =
     (case submit_limit_order s owner b p v of
        (Raised e, s') \<Rightarrow> Some (s', L)
      | (Returned (None, r), s') \<Rightarrow> run_ops ops s' (L\<lparr>submitted := submitted L + v\<rparr>)
      | (Returned (Some oid, r), s') \<Rightarrow>
          run_ops ops s' (L\<lparr>submitted := submitted L + v, accepted := accepted L + v\<rparr>))"
| "run_ops (Market owner b v # ops) s L =
     (case submit_market_order s owner b v of
        None \<Rightarrow> None
      | Some (Raised e, ds, s') \<Rightarrow> Some (s', L\<lparr>matched := matched L @ ds\<rparr>)
      | Some (Returned r, ds, s') \<Rightarrow> run_ops ops s' (L\<lparr>matched := matched L @ ds\<rparr>))"

text \<open>The invariant of the reachable states: both stores sorted by their key functions
  (so with distinct keys), the cached totals equal to the recomputed ones, and every key
  of \<open>asks\<close> above every key of \<open>bids\<close>.\<close>

definition sd_sorted :: "(int \<Rightarrow> int) \<Rightarrow> 'v SortedDict \<Rightarrow> bool" where
  "sd_sorted kf d = sorted_wrt (\<lambda>x y. kf x < kf y) (map fst d)"

definition book_ok :: "Orderbook \<Rightarrow> bool" where
  "book_ok s =
     (sd_sorted bids_key (bids s) \<and> sd_sorted asks_key (asks s)
      \<and> short_volume s = get_total_short_volume s
      \<and> long_volume s = get_total_long_volume s
      \<and> (\<forall>a \<in> set (map fst (asks s)). \<forall>b \<in> set (map fst (bids s)). b < a))"

text \<open>Time priority in terms of the identifier supply: an order submitted later takes a
  larger identifier, so a queue is in the order of submission when its identifiers
  increase from the head.\<close>

definition queue_ok :: "nat \<Rightarrow> Order list \<Rightarrow> bool" where
  "queue_ok n q = (sorted_wrt (<) (map order_id q) \<and> (\<forall>x \<in> set q. order_id x < n))"

definition in_submission_order :: "Orderbook \<Rightarrow> bool" where
  "in_submission_order s =
     (\<forall>(k, q) \<in> set (bids s) \<union> set (asks s).
        sorted_wrt (<) (map order_id q) \<and> (\<forall>x \<in> set q. order_id x < uuid_next s))"

subsection \<open>Example books\<close>

text \<open>Books built by the methods themselves, used as concrete inputs below:
  one sell order of volume 5 at price 10; that and a second sell order of volume 5 at
  price 9; the first and a buy order of volume 5 at price 20; one buy order of volume 10
  at price 100; the second book with a third sell order of volume 5 at price 10; and two
  sell orders at price 10, the first of volume 0.\<close>

definition book_one_sell :: Orderbook where
  "book_one_sell = snd (submit_limit_order init ''alice'' False 10 5)"

definition book_two_levels :: Orderbook where
  "book_two_levels = snd (submit_limit_order book_one_sell ''bob'' False 9 5)"

definition book_both :: Orderbook where
  "book_both = snd (submit_limit_order book_one_sell ''carol'' True 20 5)"

definition book_one_buy :: Orderbook where
  "book_one_buy = snd (submit_limit_order init ''carol'' True 100 10)"

definition book_queue :: Orderbook where
  "book_queue = snd (submit_limit_order book_two_levels ''dan'' False 10 5)"

definition book_zero_first :: Orderbook where
  "book_zero_first =
     snd (submit_limit_order (snd (submit_limit_order init ''alice'' False 10 0)) ''bob'' False 10 5)"

text \<open>A script for the accounting of volumes: a sell limit order of volume 10 at
  price 101, a buy limit order of volume 3 at price 50 (rejected), a buy market order of
  volume 4.\<close>

definition script_accounting :: "op list" where
  "script_accounting =
     [Limit ''alice'' False 101 10, Limit ''bob'' True 50 3, Market ''taker'' True 4]"

section \<open>Lemmas\<close>

subsection \<open>Facts about the stores\<close>

lemma sd_mutate_keys: "map fst (sd_mutate k f d) = map fst d"
  by (induction d) (auto simp: sd_mutate_def)

lemma sd_first_key_keys: "sd_first_key d = (case map fst d of [] \<Rightarrow> Inl StopIteration | k # _ \<Rightarrow> Inr k)"
  by (auto simp: sd_first_key_def split: list.splits)

lemma sd_first_key_mutate: "sd_first_key (sd_mutate k f d) = sd_first_key d"
  by (simp add: sd_first_key_keys sd_mutate_keys)

lemma sd_getitem_first: "sd_first_key d = Inr k \<Longrightarrow> \<exists>q rest. d = (k, q) # rest \<and> sd_getitem d k = Inr q"
  by (auto simp: sd_first_key_def sd_getitem_def split: list.splits)

lemma sd_mutate_sum:
  "distinct (map fst d) \<Longrightarrow> sd_getitem d k = Inr q \<Longrightarrow>
   sum_list (map g (map snd (sd_mutate k f d))) = sum_list (map g (map snd d)) - g q + (g (f q) :: int)"
proof (induction d)
  case Nil
  then show ?case by (simp add: sd_getitem_def)
next
  case (Cons a d)
  obtain k' v where a: "a = (k', v)" by (cases a)
  show ?case
  proof (cases "k' = k")
    case True
    with Cons.prems a have "k \<notin> fst ` set d" and q: "q = v"
      by (auto simp: sd_getitem_def)
    then have "sd_mutate k f d = d"
      by (induction d) (auto simp: sd_mutate_def)
    with a True q show ?thesis by (simp add: sd_mutate_def)
  next
    case False
    with Cons.prems a have "sd_getitem d k = Inr q" "distinct (map fst d)"
      by (auto simp: sd_getitem_def)
    from Cons.IH[OF this(2) this(1)] a False show ?thesis
      by (simp add: sd_mutate_def)
  qed
qed

subsection \<open>One pass of the inner loop\<close>

lemma fill_head_eq:
  "fill_head self owner b pl vol ids ds hd_ord rest =
     (vol - min (volume hd_ord) vol,
      ids @ [Suc (uuid_next self)],
      ds @ [\<lparr>Deal.volume = min (volume hd_ord) vol, Deal.price = pl,
              order_id_client = uuid_next self, order_id_market = order_id hd_ord,
              Deal.comment = [], deal_id = Suc (uuid_next self)\<rparr>],
      self\<lparr>uuid_next := Suc (Suc (uuid_next self)),
           bids := sd_mutate pl
                     (\<lambda>q. if vol < volume hd_ord
                          then hd_ord\<lparr>volume := volume hd_ord - vol\<rparr> # rest else rest)
                     (bids self),
           short_volume := short_volume self - min (volume hd_ord) vol\<rparr>)"
  by (auto simp: fill_head_def create_new_order_def create_new_deal_def Let_def
        DEBUG_disable_cache_def min_def)

subsection \<open>A loop rule for the inner loop\<close>

lemma match_level_rule:
  assumes run: "match_level self owner b pl vol ids ds = (ex, vol', ids', ds', self')"
      and init: "J vol ids ds self"
      and step: "\<And>v i d s hd_ord rest v1 i1 d1 s1.
                   J v i d s \<Longrightarrow> sd_getitem (bids s) pl = Inr (hd_ord # rest) \<Longrightarrow>
                   fill_head s owner b pl v i d hd_ord rest = (v1, i1, d1, s1) \<Longrightarrow>
                   (v1 \<noteq> 0 \<longrightarrow> J v1 i1 d1 s1) \<and> (v1 = 0 \<longrightarrow> Q (Return i1) v1 i1 d1 s1)"
      and exit_empty: "\<And>v i d s. J v i d s \<Longrightarrow> sd_getitem (bids s) pl = Inr [] \<Longrightarrow>
                   Q Fallthrough v i d s"
      and exit_err: "\<And>v i d s e. J v i d s \<Longrightarrow> sd_getitem (bids s) pl = Inl e \<Longrightarrow>
                   Q (Raise e) v i d s"
  shows "Q ex vol' ids' ds' self'"
  using assms
proof (induction self owner b pl vol ids ds rule: match_level.induct)
  case (1 self owner b pl vol ids ds)
  note run = "1.prems"(1) and init = "1.prems"(2) and step = "1.prems"(3)
    and exit_empty = "1.prems"(4) and exit_err = "1.prems"(5)
  show ?case
  proof (cases "sd_getitem (bids self) pl")
    case (Inl e)
    with run exit_err[OF init Inl] show ?thesis
      by (auto simp add: match_level.simps)
  next
    case (Inr q)
    show ?thesis
    proof (cases q)
      case Nil
      with Inr run exit_empty[OF init] show ?thesis
        by (auto simp add: match_level.simps)
    next
      case (Cons hd_ord rest)
      obtain v1 i1 d1 s1 where fh: "fill_head self owner b pl vol ids ds hd_ord rest = (v1, i1, d1, s1)"
        by (cases "fill_head self owner b pl vol ids ds hd_ord rest") auto
      have st: "(v1 \<noteq> 0 \<longrightarrow> J v1 i1 d1 s1) \<and> (v1 = 0 \<longrightarrow> Q (Return i1) v1 i1 d1 s1)"
        using step[OF init _ fh] Inr Cons by simp
      show ?thesis
      proof (cases "v1 = 0")
        case True
        with Inr Cons fh run st show ?thesis
          by (auto simp add: match_level.simps[of self])
      next
        case False
        with Inr Cons fh run
        have r1: "match_level s1 owner b pl v1 i1 d1 = (ex, vol', ids', ds', self')"
          by (auto simp add: match_level.simps[of self])
        have j1: "J v1 i1 d1 s1" using st False by simp
        show ?thesis
          by (rule "1.IH"[OF Inr Cons fh[symmetric] refl refl False r1 j1 step exit_empty exit_err])
      qed
    qed
  qed
qed

subsection \<open>The outer loop\<close>

lemma match_level_empty:
  "sd_getitem (bids self) pl = Inr [] \<Longrightarrow>
   match_level self owner b pl vol ids ds = (Fallthrough, vol, ids, ds, self)"
  by (simp add: match_level.simps)

lemma match_loop_Some_not_stuck:
  assumes "match_loop self owner b vol ids ds = Some y"
  shows "\<not> (\<exists>pl. get_max_bid_price self = Inr pl \<and> sd_getitem (bids self) pl = Inr [])"
proof (rule match_loop.raw_induct[OF _ assms,
         where P = "\<lambda>s ow bb v i d y.
            \<not> (\<exists>pl. get_max_bid_price s = Inr pl \<and> sd_getitem (bids s) pl = Inr [])"])
  fix loop s ow bb v i d r
  assume IH: "\<And>s ow bb v i d y. loop s ow bb v i d = Some y \<Longrightarrow>
                \<not> (\<exists>pl. get_max_bid_price s = Inr pl \<and> sd_getitem (bids s) pl = Inr [])"
    and body: "(case get_max_bid_price s of
                  Inl e \<Rightarrow> Some (Raised e, d, s)
                | Inr price_level \<Rightarrow>
                    (case match_level s ow bb price_level v i d of
                       (Fallthrough, vol1, deal_ids1, ds1, self1) \<Rightarrow> loop self1 ow bb vol1 deal_ids1 ds1
                     | (Return r, vol1, deal_ids1, ds1, self1) \<Rightarrow>
                         Some (Returned (Some r, None), ds1, self1)
                     | (Raise e, vol1, deal_ids1, ds1, self1) \<Rightarrow> Some (Raised e, ds1, self1))) = Some r"
  show "\<not> (\<exists>pl. get_max_bid_price s = Inr pl \<and> sd_getitem (bids s) pl = Inr [])"
  proof
    assume "\<exists>pl. get_max_bid_price s = Inr pl \<and> sd_getitem (bids s) pl = Inr []"
    then obtain pl where pl: "get_max_bid_price s = Inr pl" "sd_getitem (bids s) pl = Inr []"
      by blast
    with body have "loop s ow bb v i d = Some r"
      by (simp add: match_level_empty)
    from IH[OF this] pl show False by blast
  qed
qed

lemma match_loop_stuck:
  "get_max_bid_price self = Inr pl \<Longrightarrow> sd_getitem (bids self) pl = Inr [] \<Longrightarrow>
   match_loop self owner b vol ids ds = None"
  using match_loop_Some_not_stuck[of self owner b vol ids ds]
  by (cases "match_loop self owner b vol ids ds") auto

lemma match_level_Fallthrough:
  assumes "match_level self owner b pl vol ids ds = (Fallthrough, vol', ids', ds', self')"
  shows "sd_getitem (bids self') pl = Inr [] \<and> map fst (bids self') = map fst (bids self)"
proof -
  have "Fallthrough = Fallthrough \<longrightarrow>
          sd_getitem (bids self') pl = Inr [] \<and> map fst (bids self') = map fst (bids self)"
    by (rule match_level_rule[OF assms,
          where J = "\<lambda>v i d s. map fst (bids s) = map fst (bids self)"
            and Q = "\<lambda>ex v i d s. ex = Fallthrough \<longrightarrow>
                       sd_getitem (bids s) pl = Inr [] \<and> map fst (bids s) = map fst (bids self)"])
       (auto simp: fill_head_eq sd_mutate_keys)
  then show ?thesis by simp
qed

lemma match_loop_once:
  "match_loop self owner b vol ids ds =
     (case get_max_bid_price self of
        Inl e \<Rightarrow> Some (Raised e, ds, self)
      | Inr pl \<Rightarrow>
          (case match_level self owner b pl vol ids ds of
             (Return r, vol1, ids1, ds1, self1) \<Rightarrow> Some (Returned (Some r, None), ds1, self1)
           | (Raise e, vol1, ids1, ds1, self1) \<Rightarrow> Some (Raised e, ds1, self1)
           | (Fallthrough, vol1, ids1, ds1, self1) \<Rightarrow> None))"
proof (cases "get_max_bid_price self")
  case (Inl e)
  then show ?thesis by (subst match_loop.simps) simp
next
  case (Inr pl)
  obtain ex vol1 ids1 ds1 self1 where
    ml: "match_level self owner b pl vol ids ds = (ex, vol1, ids1, ds1, self1)"
    by (cases "match_level self owner b pl vol ids ds") auto
  show ?thesis
  proof (cases ex)
    case Fallthrough
    from match_level_Fallthrough[OF ml[unfolded Fallthrough]]
    have q: "sd_getitem (bids self1) pl = Inr []" and k: "map fst (bids self1) = map fst (bids self)"
      by simp_all
    from k Inr have "get_max_bid_price self1 = Inr pl"
      by (simp add: get_max_bid_price_def sd_first_key_keys)
    from match_loop_stuck[OF this q] Inr ml Fallthrough show ?thesis
      by (subst match_loop.simps) simp
  next
    case (Return r)
    with Inr ml show ?thesis by (subst match_loop.simps) simp
  next
    case (Raise e)
    with Inr ml show ?thesis by (subst match_loop.simps) simp
  qed
qed

subsection \<open>What the inner loop does\<close>

lemma match_level_trace:
  assumes "match_level self owner b pl vol ids ds = (ex, vol', ids', ds', self')"
  shows "\<exists>new bd. ds' = ds @ new \<and> ids' = ids @ map deal_id new
           \<and> vol' = vol - sum_list (map Deal.volume new)
           \<and> (\<forall>d \<in> set new. Deal.price d = pl)
           \<and> self' = self\<lparr>uuid_next := uuid_next self + 2 * length new,
                           bids := bd,
                           short_volume := short_volume self - sum_list (map Deal.volume new)\<rparr>
           \<and> map fst bd = map fst (bids self)"
proof (rule match_level_rule[OF assms,
         where J = "\<lambda>v i d s. \<exists>new bd. d = ds @ new \<and> i = ids @ map deal_id new
           \<and> v = vol - sum_list (map Deal.volume new)
           \<and> (\<forall>d \<in> set new. Deal.price d = pl)
           \<and> s = self\<lparr>uuid_next := uuid_next self + 2 * length new,
                           bids := bd,
                           short_volume := short_volume self - sum_list (map Deal.volume new)\<rparr>
           \<and> map fst bd = map fst (bids self)"
          and Q = "\<lambda>ex v i d s. \<exists>new bd. d = ds @ new \<and> i = ids @ map deal_id new
           \<and> v = vol - sum_list (map Deal.volume new)
           \<and> (\<forall>d \<in> set new. Deal.price d = pl)
           \<and> s = self\<lparr>uuid_next := uuid_next self + 2 * length new,
                           bids := bd,
                           short_volume := short_volume self - sum_list (map Deal.volume new)\<rparr>
           \<and> map fst bd = map fst (bids self)"], goal_cases)
  case 1
  show ?case by (rule exI[of _ "[]"], rule exI[of _ "bids self"]) simp
next
  case (2 v i d s hd_ord rest v1 i1 d1 s1)
  from 2(1) obtain new bd where n: "d = ds @ new" "i = ids @ map deal_id new"
     "v = vol - sum_list (map Deal.volume new)" "\<forall>d \<in> set new. Deal.price d = pl"
     "s = self\<lparr>uuid_next := uuid_next self + 2 * length new, bids := bd,
                short_volume := short_volume self - sum_list (map Deal.volume new)\<rparr>"
     "map fst bd = map fst (bids self)"
    by blast
  let ?deal = "\<lparr>Deal.volume = min (volume hd_ord) v, Deal.price = pl,
              order_id_client = uuid_next s, order_id_market = order_id hd_ord,
              Deal.comment = [], deal_id = Suc (uuid_next s)\<rparr>"
  have "d1 = ds @ (new @ [?deal]) \<and> i1 = ids @ map deal_id (new @ [?deal])
           \<and> v1 = vol - sum_list (map Deal.volume (new @ [?deal]))
           \<and> (\<forall>d \<in> set (new @ [?deal]). Deal.price d = pl)
           \<and> s1 = self\<lparr>uuid_next := uuid_next self + 2 * length (new @ [?deal]),
                           bids := bids s1,
                           short_volume := short_volume self - sum_list (map Deal.volume (new @ [?deal]))\<rparr>
           \<and> map fst (bids s1) = map fst (bids self)"
    using 2(3) n(1-4,6)
    by (auto simp add: fill_head_eq sd_mutate_keys n(5) algebra_simps)
  then show ?case by blast
qed auto


lemma match_level_exit:
  assumes "match_level self owner b pl vol ids ds = (ex, vol', ids', ds', self')"
      and "sd_getitem (bids self) pl = Inr q"
  shows "(ex = Fallthrough \<and> sd_getitem (bids self') pl = Inr [])
       \<or> (ex = Return ids' \<and> vol' = 0 \<and> ds' \<noteq> [])"
  by (rule match_level_rule[OF assms(1),
        where J = "\<lambda>v i d s. \<exists>q. sd_getitem (bids s) pl = Inr q"
          and Q = "\<lambda>ex v i d s. (ex = Fallthrough \<and> sd_getitem (bids s) pl = Inr [])
                     \<or> (ex = Return i \<and> v = 0 \<and> d \<noteq> [])"])
     (use assms(2) in \<open>auto simp: fill_head_eq sd_getitem_mutate\<close>)

lemma match_level_totals:
  assumes "match_level self owner b pl vol ids ds = (ex, vol', ids', ds', self')"
      and "distinct (map fst (bids self))"
  shows "get_total_short_volume self' - short_volume self'
           = get_total_short_volume self - short_volume self"
proof -
  have "map fst (bids self') = map fst (bids self) \<and>
        get_total_short_volume self' - short_volume self'
           = get_total_short_volume self - short_volume self"
  proof (rule match_level_rule[OF assms(1),
        where J = "\<lambda>v i d s. map fst (bids s) = map fst (bids self) \<and>
                     get_total_short_volume s - short_volume s
                       = get_total_short_volume self - short_volume self"
          and Q = "\<lambda>ex v i d s. map fst (bids s) = map fst (bids self) \<and>
                     get_total_short_volume s - short_volume s
                       = get_total_short_volume self - short_volume self"], goal_cases)
    case (2 v i d s hd_ord rest v1 i1 d1 s1)
    then have dist: "distinct (map fst (bids s))" using assms(2) by simp
    from 2 sd_mutate_sum[OF dist 2(2),
            of "\<lambda>ords. sum_list (map Order.volume ords)"
               "\<lambda>q. if v < volume hd_ord then hd_ord\<lparr>volume := volume hd_ord - v\<rparr> # rest else rest"]
    show ?case
      by (auto simp: fill_head_eq sd_mutate_keys get_total_short_volume_def min_def)
  qed auto
  then show ?thesis by simp
qed

lemma match_level_fifo:
  assumes "match_level self owner b pl vol ids ds = (ex, vol', ids', ds', self')"
      and "sd_getitem (bids self) pl = Inr q"
  shows "\<exists>new. ds' = ds @ new \<and> length new \<le> length q
           \<and> map order_id_market new = map order_id (take (length new) q)"
proof (rule match_level_rule[OF assms(1),
        where J = "\<lambda>v i d s. \<exists>new. d = ds @ new \<and> length new \<le> length q
                     \<and> map order_id_market new = map order_id (take (length new) q)
                     \<and> sd_getitem (bids s) pl = Inr (drop (length new) q)"
          and Q = "\<lambda>ex v i d s. \<exists>new. d = ds @ new \<and> length new \<le> length q
                     \<and> map order_id_market new = map order_id (take (length new) q)"], goal_cases)
  case 1
  show ?case using assms(2) by (intro exI[of _ "[]"]) simp
next
  case (2 v i d s hd_ord rest v1 i1 d1 s1)
  from 2(1) obtain new where n: "d = ds @ new" "length new \<le> length q"
      "map order_id_market new = map order_id (take (length new) q)"
      "sd_getitem (bids s) pl = Inr (drop (length new) q)"
    by blast
  from n(4) 2(2) have dr: "drop (length new) q = hd_ord # rest" by simp
  then have lt: "length new < length q"
    using n(2) by (cases "length new = length q") auto
  from dr have hd: "q ! length new = hd_ord" and rest: "drop (Suc (length new)) q = rest"
    using lt by (metis Cons_nth_drop_Suc list.inject)+
  let ?deal = "\<lparr>Deal.volume = min (volume hd_ord) v, Deal.price = pl,
              order_id_client = uuid_next s, order_id_market = order_id hd_ord,
              Deal.comment = [], deal_id = Suc (uuid_next s)\<rparr>"
  have d1: "d1 = ds @ (new @ [?deal])" using 2(3) n(1) by (auto simp: fill_head_eq)
  have len: "length (new @ [?deal]) \<le> length q" using lt by simp
  have m: "map order_id_market (new @ [?deal]) = map order_id (take (length (new @ [?deal])) q)"
    using n(3) hd lt by (simp add: take_Suc_conv_app_nth)
  have q1: "v1 \<noteq> 0 \<Longrightarrow> sd_getitem (bids s1) pl = Inr (drop (length (new @ [?deal])) q)"
    using 2(3) sd_getitem_mutate[OF 2(2)] rest by (auto simp: fill_head_eq)
  show ?case using d1 len m q1 by blast
qed auto

lemma sd_mutate_set:
  "(k', q') \<in> set (sd_mutate k f d) \<Longrightarrow>
   (k', q') \<in> set d \<or> (\<exists>q. (k, q) \<in> set d \<and> k' = k \<and> q' = f q)"
  by (auto simp: sd_mutate_def split: if_splits)

lemma sd_getitem_set: "sd_getitem d k = Inr q \<Longrightarrow> (k, q) \<in> set d"
  by (auto simp: sd_getitem_def split: option.splits dest: map_of_SomeD)

lemma match_level_positive:
  assumes "match_level self owner b pl vol ids ds = (ex, vol', ids', ds', self')"
      and "0 < vol"
      and "\<forall>(k, q) \<in> set (bids self). \<forall>x \<in> set q. 0 < volume x"
  shows "(\<exists>new. ds' = ds @ new \<and> (\<forall>d \<in> set new. 0 < Deal.volume d))
       \<and> (\<forall>(k, q) \<in> set (bids self'). \<forall>x \<in> set q. 0 < volume x)"
proof (rule match_level_rule[OF assms(1),
        where J = "\<lambda>v i d s. 0 < v \<and> (\<exists>new. d = ds @ new \<and> (\<forall>d \<in> set new. 0 < Deal.volume d))
                     \<and> (\<forall>(k, q) \<in> set (bids s). \<forall>x \<in> set q. 0 < volume x)"
          and Q = "\<lambda>ex v i d s. (\<exists>new. d = ds @ new \<and> (\<forall>d \<in> set new. 0 < Deal.volume d))
                     \<and> (\<forall>(k, q) \<in> set (bids s). \<forall>x \<in> set q. 0 < volume x)"], goal_cases)
  case 1
  show ?case using assms(2,3) by simp
next
  case (2 v i d s hd_ord rest v1 i1 d1 s1)
  then obtain new where n: "0 < v" "d = ds @ new" "\<forall>d \<in> set new. 0 < Deal.volume d"
      and pos: "\<forall>(k, q) \<in> set (bids s). \<forall>x \<in> set q. 0 < volume x"
    by blast
  from sd_getitem_set[OF 2(2)] pos have hp: "0 < volume hd_ord" "\<forall>x \<in> set rest. 0 < volume x"
    by auto
  let ?deal = "\<lparr>Deal.volume = min (volume hd_ord) v, Deal.price = pl,
              order_id_client = uuid_next s, order_id_market = order_id hd_ord,
              Deal.comment = [], deal_id = Suc (uuid_next s)\<rparr>"
  have d1: "d1 = ds @ (new @ [?deal])" using 2(3) n(2) by (auto simp: fill_head_eq)
  have dp: "\<forall>d \<in> set (new @ [?deal]). 0 < Deal.volume d" using n(1,3) hp(1) by simp
  have v1: "0 \<le> v1" using 2(3) n(1) by (auto simp: fill_head_eq)
  let ?f = "\<lambda>q::Order list. if v < volume hd_ord
                then hd_ord\<lparr>volume := volume hd_ord - v\<rparr> # rest else rest"
  have b1: "bids s1 = sd_mutate pl ?f (bids s)"
    using 2(3) by (auto simp: fill_head_eq)
  have fp: "\<And>q0. \<forall>x \<in> set (?f q0). 0 < volume x"
    using hp by auto
  have bp: "\<forall>(k, q) \<in> set (bids s1). \<forall>x \<in> set q. 0 < volume x"
  proof (clarify)
    fix k q x
    assume kq: "(k, q) \<in> set (bids s1)" and x: "x \<in> set q"
    from kq b1 sd_mutate_set[of k q pl ?f "bids s"]
    consider "(k, q) \<in> set (bids s)" | q0 where "q = ?f q0"
      by auto
    then show "0 < volume x"
    proof cases
      case 1
      with pos x show ?thesis by blast
    next
      case 2
      with fp x show ?thesis by metis
    qed
  qed
  show ?case using d1 dp v1 bp by fastforce
qed auto

subsection \<open>Insertion into a store\<close>

lemma sd_setitem_keys: "set (map fst (sd_setitem kf k v d)) = insert k (set (map fst d))"
proof (induction d)
  case Nil
  show ?case by simp
next
  case (Cons a d)
  obtain k' v' where a: "a = (k', v')" by (cases a)
  show ?case using Cons.IH unfolding a by (simp add: insert_commute)
qed

lemma sd_getitem_setitem: "sd_getitem (sd_setitem kf k v d) k = Inr v"
  by (induction d) (auto simp: sd_getitem_def)

lemma sd_getitem_setitem_other:
  "k' \<noteq> k \<Longrightarrow> sd_getitem (sd_setitem kf k v d) k' = sd_getitem d k'"
  by (induction d) (auto simp: sd_getitem_def)

lemma sd_getitem_mutate_other:
  "k' \<noteq> k \<Longrightarrow> sd_getitem (sd_mutate k f d) k' = sd_getitem d k'"
  by (induction d) (auto simp: sd_getitem_def sd_mutate_def)

lemma sd_sorted_setitem:
  assumes "inj kf" "sd_sorted kf d"
  shows "sd_sorted kf (sd_setitem kf k v d)"
  using assms(2)
proof (induction d)
  case Nil
  then show ?case by (simp add: sd_sorted_def)
next
  case (Cons a d)
  obtain k' v' where a: "a = (k', v')" by (cases a)
  from Cons.prems a have tl: "sd_sorted kf d" and hd: "\<forall>x \<in> set (map fst d). kf k' < kf x"
    by (auto simp: sd_sorted_def)
  show ?case
  proof (cases "k = k'")
    case True
    with Cons.prems a show ?thesis by (simp add: sd_sorted_def)
  next
    case ne: False
    show ?thesis
    proof (cases "kf k < kf k'")
      case True
      with Cons.prems a ne hd show ?thesis by (auto simp: sd_sorted_def)
    next
      case False
      from ne assms(1) have "kf k \<noteq> kf k'" by (auto dest: injD)
      with False have lt: "kf k' < kf k" by simp
      have "\<forall>x \<in> set (map fst (sd_setitem kf k v d)). kf k' < kf x"
        unfolding sd_setitem_keys using hd lt by simp
      with Cons.IH[OF tl] a ne False show ?thesis
        by (simp add: sd_sorted_def)
    qed
  qed
qed

lemma sd_sorted_distinct: "sd_sorted kf d \<Longrightarrow> distinct (map fst d)"
  unfolding sd_sorted_def
  by (induction d) auto

lemma sd_sorted_mutate: "sd_sorted kf (sd_mutate k f d) = sd_sorted kf d"
  by (simp add: sd_sorted_def sd_mutate_keys)

lemma sd_sorted_first:
  "sd_sorted kf d \<Longrightarrow> sd_first_key d = Inr m \<Longrightarrow> k \<in> set (map fst d) \<Longrightarrow> kf m \<le> kf k"
  by (cases d) (auto simp: sd_sorted_def sd_first_key_def)

lemma sd_setitem_sum:
  "k \<notin> set (map fst d) \<Longrightarrow>
   sum_list (map g (map snd (sd_setitem kf k v d))) = (g v :: int) + sum_list (map g (map snd d))"
  by (induction d) auto

lemma sd_contains_keys: "sd_contains d k = (k \<in> set (map fst d))"
  by (simp add: sd_contains_def map_of_eq_None_iff)

lemma sd_contains_getitem: "sd_contains d k \<Longrightarrow> \<exists>q. sd_getitem d k = Inr q"
  by (auto simp: sd_contains_def sd_getitem_def)

lemma sd_not_contains_getitem: "\<not> sd_contains d k \<Longrightarrow> sd_getitem d k = Inl KeyError"
  by (auto simp: sd_contains_def sd_getitem_def)

lemma inj_bids_key: "inj bids_key"
  by (auto simp: inj_def bids_key_def)

lemma inj_asks_key: "inj asks_key"
  by (auto simp: inj_def asks_key_def)

subsection \<open>\<open>submit_limit_order\<close> in closed form\<close>

lemma first_key_nonempty: "(0 < length d) = (\<exists>m. sd_first_key d = Inr m)"
  by (cases d) (auto simp: sd_first_key_def)

lemma submit_limit_order_reject_buy:
  assumes "get_max_bid_price s = Inr m" "p \<le> m"
  shows "submit_limit_order s owner True p v =
           (Returned (None, Some (''Rejected order ask price '' @ [CHR 0x27] @ str_int p @ [CHR 0x27]
                              @ '', lower than '' @ str_int m @ ''.'')), s)"
  using assms first_key_nonempty[of "bids s"]
  by (simp add: submit_limit_order_def get_max_bid_price_def)

lemma submit_limit_order_reject_sell:
  assumes "get_min_ask_price s = Inr m" "m \<le> p"
  shows "submit_limit_order s owner False p v =
           (Returned (None, Some (''Rejected order bid price '' @ [CHR 0x27] @ str_int p @ [CHR 0x27]
                              @ '', higher than '' @ str_int m @ ''.'')), s)"
  using assms first_key_nonempty[of "asks s"]
  by (simp add: submit_limit_order_def get_min_ask_price_def)

lemma submit_limit_order_accept_buy:
  assumes "\<not> (\<exists>m. get_max_bid_price s = Inr m \<and> p \<le> m)"
  shows "submit_limit_order s owner True p v =
           (Returned (Some (uuid_next s), None),
            s\<lparr>uuid_next := Suc (uuid_next s), long_volume := long_volume s + v,
              asks := (let new_order = \<lparr>owner_id = owner, is_buy = True, price = p, volume = v,
                                         comment = [], order_id = uuid_next s\<rparr>
                       in if \<not> sd_contains (asks s) p
                          then sd_setitem asks_key p [new_order] (asks s)
                          else sd_mutate p (\<lambda>q. q @ [new_order]) (asks s))\<rparr>)"
  using assms first_key_nonempty[of "bids s"]
  by (auto simp: submit_limit_order_def get_max_bid_price_def create_new_order_def
        DEBUG_disable_cache_def Let_def split: sum.splits)

lemma submit_limit_order_accept_sell:
  assumes "\<not> (\<exists>m. get_min_ask_price s = Inr m \<and> m \<le> p)"
  shows "submit_limit_order s owner False p v =
           (Returned (Some (uuid_next s), None),
            s\<lparr>uuid_next := Suc (uuid_next s), short_volume := short_volume s + v,
              bids := (let new_order = \<lparr>owner_id = owner, is_buy = False, price = p, volume = v,
                                         comment = [], order_id = uuid_next s\<rparr>
                       in if \<not> sd_contains (bids s) p
                          then sd_setitem bids_key p [new_order] (bids s)
                          else sd_mutate p (\<lambda>q. q @ [new_order]) (bids s))\<rparr>)"
  using assms first_key_nonempty[of "asks s"]
  by (auto simp: submit_limit_order_def get_min_ask_price_def create_new_order_def
        DEBUG_disable_cache_def Let_def split: sum.splits)

subsection \<open>\<open>submit_market_order\<close> in closed form\<close>

lemma submit_market_order_cases:
  assumes "submit_market_order s owner b v = Some (out, ds, s')"
  obtains (unsupported) "\<not> b" "out = Returned (None, Some ''Short Market Orders currently not supported!'')"
            "ds = []" "s' = s"
  | (too_large) "b" "short_volume s < v" "ds = []" "s' = s"
       "out = Returned (None, Some (''volume='' @ str_int v @ ''>self._short_volume=''
                     @ str_int (short_volume s) @ ''!''))"
  | (empty_book) "b" "v \<le> short_volume s" "get_max_bid_price s = Inl StopIteration"
       "out = Raised StopIteration" "ds = []" "s' = s"
  | (filled) pl q ids where "b" "v \<le> short_volume s" "get_max_bid_price s = Inr pl"
       "sd_getitem (bids s) pl = Inr q"
       "match_level s owner b pl v [] [] = (Return ids, 0, ids, ds, s')"
       "out = Returned (Some ids, None)"
proof (cases "\<not> b")
  case True
  with assms unsupported show ?thesis by (auto simp: submit_market_order_def)
next
  case b: False
  show ?thesis
  proof (cases "short_volume s < v")
    case True
    with assms b too_large show ?thesis by (auto simp: submit_market_order_def)
  next
    case False
    with assms b have ml: "match_loop s owner b v [] [] = Some (out, ds, s')"
      by (simp add: submit_market_order_def)
    show ?thesis
    proof (cases "get_max_bid_price s")
      case (Inl e)
      then have "e = StopIteration"
        by (auto simp: get_max_bid_price_def sd_first_key_def split: list.splits)
      moreover from ml Inl have "out = Raised e" "ds = []" "s' = s"
        by (simp_all add: match_loop_once)
      ultimately show ?thesis
        using empty_book Inl b False by simp
    next
      case (Inr pl)
      then obtain q where q: "sd_getitem (bids s) pl = Inr q"
        using sd_getitem_first[of "bids s" pl] by (auto simp: get_max_bid_price_def)
      obtain ex vol1 ids1 ds1 s1 where
        run: "match_level s owner b pl v [] [] = (ex, vol1, ids1, ds1, s1)"
        by (cases "match_level s owner b pl v [] []") auto
      from match_level_exit[OF run q] ml Inr run
      have "ex = Return ids1" "vol1 = 0" "out = Returned (Some ids1, None)" "ds1 = ds" "s1 = s'"
        by (auto simp: match_loop_once)
      with filled[of pl q ids1] b False Inr q run show ?thesis by simp
    qed
  qed
qed

text \<open>When the call comes back: a market order that is accepted returns exactly when the
  first price level of \<open>bids\<close> alone satisfies it.\<close>

lemma submit_market_order_accepted:
  assumes "v \<le> short_volume s" "get_max_bid_price s = Inr pl"
  shows "submit_market_order s owner True v =
           (case match_level s owner True pl v [] [] of
              (Return r, vol1, ids1, ds1, self1) \<Rightarrow> Some (Returned (Some r, None), ds1, self1)
            | (Raise e, vol1, ids1, ds1, self1) \<Rightarrow> Some (Raised e, ds1, self1)
            | (Fallthrough, vol1, ids1, ds1, self1) \<Rightarrow> None)"
  using assms by (simp add: submit_market_order_def match_loop_once)

subsection \<open>The invariant of the reachable states\<close>

lemma book_ok_init: "book_ok init"
  by (simp add: book_ok_def init_def sd_sorted_def get_total_short_volume_def
        get_total_long_volume_def get_long_num_ords_def get_short_num_ords_def Let_def)

lemma book_ok_limit:
  assumes ok: "book_ok s" and run: "submit_limit_order s owner b p v = (out, s')"
  shows "book_ok s'"
proof (cases b)
  case True
  show ?thesis
  proof (cases "\<exists>m. get_max_bid_price s = Inr m \<and> p \<le> m")
    case rej: True
    then obtain m where "get_max_bid_price s = Inr m" "p \<le> m" by blast
    from submit_limit_order_reject_buy[OF this] run True ok show ?thesis by simp
  next
    case acc: False
    let ?o = "\<lparr>owner_id = owner, is_buy = True, price = p, volume = v,
               comment = [], order_id = uuid_next s\<rparr>"
    let ?A = "if \<not> sd_contains (asks s) p
              then sd_setitem asks_key p [?o] (asks s)
              else sd_mutate p (\<lambda>q. q @ [?o]) (asks s)"
    from submit_limit_order_accept_buy[OF acc] run True
    have s': "s' = s\<lparr>uuid_next := Suc (uuid_next s), long_volume := long_volume s + v, asks := ?A\<rparr>"
      by (simp add: Let_def)
    from ok have sb: "sd_sorted bids_key (bids s)" and sa: "sd_sorted asks_key (asks s)"
      and cs: "short_volume s = get_total_short_volume s"
      and cl: "long_volume s = get_total_long_volume s"
      and cross: "\<forall>a \<in> set (map fst (asks s)). \<forall>b \<in> set (map fst (bids s)). b < a"
      by (simp_all add: book_ok_def)
    have sA: "sd_sorted asks_key ?A"
      using sa by (simp add: sd_sorted_setitem inj_asks_key sd_sorted_mutate)
    have keys: "set (map fst ?A) = insert p (set (map fst (asks s)))"
      by (auto simp: sd_setitem_keys sd_mutate_keys sd_contains_keys simp del: set_map)
    have tot: "sum_list (map (\<lambda>ords. sum_list (map Order.volume ords)) (map snd ?A))
                = get_total_long_volume s + v"
    proof (cases "sd_contains (asks s) p")
      case True
      then obtain q where q: "sd_getitem (asks s) p = Inr q"
        using sd_contains_getitem by blast
      from sd_mutate_sum[OF sd_sorted_distinct[OF sa] q,
             of "\<lambda>ords. sum_list (map Order.volume ords)" "\<lambda>q. q @ [?o]"] True
      show ?thesis by (simp add: get_total_long_volume_def)
    next
      case False
      then have "p \<notin> set (map fst (asks s))" by (simp add: sd_contains_keys)
      from sd_setitem_sum[OF this, of "\<lambda>ords. sum_list (map Order.volume ords)" asks_key "[?o]"] False
      show ?thesis by (simp add: get_total_long_volume_def)
    qed
    have below: "\<forall>k \<in> set (map fst (bids s)). k < p"
    proof
      fix k assume k: "k \<in> set (map fst (bids s))"
      then obtain m where m: "get_max_bid_price s = Inr m"
        by (cases "bids s") (auto simp: get_max_bid_price_def sd_first_key_def)
      with acc have "m < p" by auto
      moreover from sd_sorted_first[OF sb m[unfolded get_max_bid_price_def] k]
      have "k \<le> m" by (simp add: bids_key_def)
      ultimately show "k < p" by simp
    qed
    show ?thesis
      unfolding book_ok_def s'
      using sb sA cs cl tot cross below keys
      by (simp add: get_total_short_volume_def get_total_long_volume_def del: set_map)
  qed
next
  case False
  show ?thesis
  proof (cases "\<exists>m. get_min_ask_price s = Inr m \<and> m \<le> p")
    case rej: True
    then obtain m where "get_min_ask_price s = Inr m" "m \<le> p" by blast
    from submit_limit_order_reject_sell[OF this] run False ok show ?thesis by simp
  next
    case acc: False
    let ?o = "\<lparr>owner_id = owner, is_buy = False, price = p, volume = v,
               comment = [], order_id = uuid_next s\<rparr>"
    let ?B = "if \<not> sd_contains (bids s) p
              then sd_setitem bids_key p [?o] (bids s)
              else sd_mutate p (\<lambda>q. q @ [?o]) (bids s)"
    from submit_limit_order_accept_sell[OF acc] run False
    have s': "s' = s\<lparr>uuid_next := Suc (uuid_next s), short_volume := short_volume s + v, bids := ?B\<rparr>"
      by (simp add: Let_def)
    from ok have sb: "sd_sorted bids_key (bids s)" and sa: "sd_sorted asks_key (asks s)"
      and cs: "short_volume s = get_total_short_volume s"
      and cl: "long_volume s = get_total_long_volume s"
      and cross: "\<forall>a \<in> set (map fst (asks s)). \<forall>b \<in> set (map fst (bids s)). b < a"
      by (simp_all add: book_ok_def)
    have sB: "sd_sorted bids_key ?B"
      using sb by (simp add: sd_sorted_setitem inj_bids_key sd_sorted_mutate)
    have keys: "set (map fst ?B) = insert p (set (map fst (bids s)))"
      by (auto simp: sd_setitem_keys sd_mutate_keys sd_contains_keys simp del: set_map)
    have tot: "sum_list (map (\<lambda>ords. sum_list (map Order.volume ords)) (map snd ?B))
                = get_total_short_volume s + v"
    proof (cases "sd_contains (bids s) p")
      case True
      then obtain q where q: "sd_getitem (bids s) p = Inr q"
        using sd_contains_getitem by blast
      from sd_mutate_sum[OF sd_sorted_distinct[OF sb] q,
             of "\<lambda>ords. sum_list (map Order.volume ords)" "\<lambda>q. q @ [?o]"] True
      show ?thesis by (simp add: get_total_short_volume_def)
    next
      case False
      then have "p \<notin> set (map fst (bids s))" by (simp add: sd_contains_keys)
      from sd_setitem_sum[OF this, of "\<lambda>ords. sum_list (map Order.volume ords)" bids_key "[?o]"] False
      show ?thesis by (simp add: get_total_short_volume_def)
    qed
    have above: "\<forall>k \<in> set (map fst (asks s)). p < k"
    proof
      fix k assume k: "k \<in> set (map fst (asks s))"
      then obtain m where m: "get_min_ask_price s = Inr m"
        by (cases "asks s") (auto simp: get_min_ask_price_def sd_first_key_def)
      with acc have "p < m" by auto
      moreover from sd_sorted_first[OF sa m[unfolded get_min_ask_price_def] k]
      have "m \<le> k" by (simp add: asks_key_def)
      ultimately show "p < k" by simp
    qed
    show ?thesis
      unfolding book_ok_def s'
      using sB sa cs cl tot cross above keys
      by (simp add: get_total_short_volume_def get_total_long_volume_def del: set_map)
  qed
qed

lemma book_ok_market:
  assumes ok: "book_ok s" and run: "submit_market_order s owner b v = Some (out, ds, s')"
  shows "book_ok s'"
  using run
proof (cases rule: submit_market_order_cases)
  case (filled pl q ids)
  from match_level_trace[OF filled(5)] obtain new bd where
    "ds = [] @ new" "ids = [] @ map deal_id new"
    "0 = v - sum_list (map Deal.volume new)" "\<forall>d \<in> set new. Deal.price d = pl"
    and s': "s' = s\<lparr>uuid_next := uuid_next s + 2 * length new, bids := bd,
                 short_volume := short_volume s - sum_list (map Deal.volume new)\<rparr>"
    and keys: "map fst bd = map fst (bids s)"
    by (elim exE conjE)
  from ok have "sd_sorted bids_key (bids s)"
    by (simp add: book_ok_def)
  then have dist: "distinct (map fst (bids s))"
    by (rule sd_sorted_distinct)
  from match_level_totals[OF filled(5) dist] ok
  have "short_volume s' = get_total_short_volume s'" by (simp add: book_ok_def)
  moreover have "get_total_long_volume s' = get_total_long_volume s"
    by (simp add: s' get_total_long_volume_def)
  ultimately show ?thesis
    using ok keys unfolding book_ok_def sd_sorted_def
    by (simp add: s')
qed (use ok in simp_all)

lemma reachable_book_ok: "reachable s \<Longrightarrow> book_ok s"
  by (induction rule: reachable.induct) (auto intro: book_ok_init book_ok_limit book_ok_market)

subsection \<open>The example books, evaluated\<close>

lemmas eval_limit =
  submit_limit_order_def get_max_bid_price_def get_min_ask_price_def sd_first_key_def
  create_new_order_def DEBUG_disable_cache_def sd_contains_def sd_mutate_def
  bids_key_def asks_key_def Let_def

lemmas eval_market =
  submit_market_order_def match_loop_once get_max_bid_price_def sd_first_key_def
  match_level.simps sd_getitem_def fill_head_eq sd_mutate_def

lemma init_eq:
  "init = \<lparr>bids = [], asks = [], long_num_ords = 0, short_num_ords = 0,
            short_volume = 0, long_volume = 0, deals = [], orders = [], uuid_next = 0\<rparr>"
  by (simp add: init_def Let_def get_total_long_volume_def get_total_short_volume_def
        get_long_num_ords_def get_short_num_ords_def)

lemma book_one_sell_eq:
  "book_one_sell =
     \<lparr>bids = [(10, [\<lparr>owner_id = ''alice'', is_buy = False, price = 10, volume = 5,
                       comment = [], order_id = 0\<rparr>])],
      asks = [], long_num_ords = 0, short_num_ords = 0,
      short_volume = 5, long_volume = 0, deals = [], orders = [], uuid_next = 1\<rparr>"
  by (simp add: book_one_sell_def init_eq eval_limit)

lemma book_two_levels_eq:
  "book_two_levels =
     \<lparr>bids = [(10, [\<lparr>owner_id = ''alice'', is_buy = False, price = 10, volume = 5,
                       comment = [], order_id = 0\<rparr>]),
              (9, [\<lparr>owner_id = ''bob'', is_buy = False, price = 9, volume = 5,
                       comment = [], order_id = 1\<rparr>])],
      asks = [], long_num_ords = 0, short_num_ords = 0,
      short_volume = 10, long_volume = 0, deals = [], orders = [], uuid_next = 2\<rparr>"
  by (simp add: book_two_levels_def book_one_sell_eq eval_limit)

lemma book_both_eq:
  "book_both =
     \<lparr>bids = [(10, [\<lparr>owner_id = ''alice'', is_buy = False, price = 10, volume = 5,
                       comment = [], order_id = 0\<rparr>])],
      asks = [(20, [\<lparr>owner_id = ''carol'', is_buy = True, price = 20, volume = 5,
                       comment = [], order_id = 1\<rparr>])],
      long_num_ords = 0, short_num_ords = 0,
      short_volume = 5, long_volume = 5, deals = [], orders = [], uuid_next = 2\<rparr>"
  by (simp add: book_both_def book_one_sell_eq eval_limit)

lemma book_one_buy_eq:
  "book_one_buy =
     \<lparr>bids = [],
      asks = [(100, [\<lparr>owner_id = ''carol'', is_buy = True, price = 100, volume = 10,
                       comment = [], order_id = 0\<rparr>])],
      long_num_ords = 0, short_num_ords = 0,
      short_volume = 0, long_volume = 10, deals = [], orders = [], uuid_next = 1\<rparr>"
  by (simp add: book_one_buy_def init_eq eval_limit)

lemma book_zero_first_eq:
  "book_zero_first =
     \<lparr>bids = [(10, [\<lparr>owner_id = ''alice'', is_buy = False, price = 10, volume = 0,
                       comment = [], order_id = 0\<rparr>,
                     \<lparr>owner_id = ''bob'', is_buy = False, price = 10, volume = 5,
                       comment = [], order_id = 1\<rparr>])],
      asks = [], long_num_ords = 0, short_num_ords = 0,
      short_volume = 5, long_volume = 0, deals = [], orders = [], uuid_next = 2\<rparr>"
  by (simp add: book_zero_first_def init_eq eval_limit)

lemma reachable_book_one_sell: "reachable book_one_sell"
  unfolding book_one_sell_def
  by (rule reachable_limit[OF reachable_init surjective_pairing])

lemma reachable_book_two_levels: "reachable book_two_levels"
  unfolding book_two_levels_def
  by (rule reachable_limit[OF reachable_book_one_sell surjective_pairing])

lemma reachable_book_both: "reachable book_both"
  unfolding book_both_def
  by (rule reachable_limit[OF reachable_book_one_sell surjective_pairing])

lemma reachable_book_one_buy: "reachable book_one_buy"
  unfolding book_one_buy_def
  by (rule reachable_limit[OF reachable_init surjective_pairing])

lemma reachable_book_zero_first: "reachable book_zero_first"
  unfolding book_zero_first_def
  by (rule reachable_limit[OF reachable_limit[OF reachable_init surjective_pairing] surjective_pairing])

subsection \<open>\<open>validate\<close> and the invariant\<close>

lemma book_ok_no_cross:
  assumes "book_ok s" "0 < length (asks s)" "0 < length (bids s)"
  shows "\<exists>a b. get_min_ask_price s = Inr a \<and> get_max_bid_price s = Inr b \<and> b < a"
proof -
  from assms(2) obtain a qa ra where a: "asks s = (a, qa) # ra" by (cases "asks s") auto
  from assms(3) obtain b qb rb where b: "bids s = (b, qb) # rb" by (cases "bids s") auto
  from assms(1) a b have "b < a" by (simp add: book_ok_def)
  with a b show ?thesis
    by (simp add: get_min_ask_price_def get_max_bid_price_def sd_first_key_def)
qed

lemma validate_mismatch_iff:
  "(validate t = Raised (AssertionError ''ASKS and BIDS are mismatched!''))
     = (short_volume t = get_total_short_volume t \<and> long_volume t = get_total_long_volume t
        \<and> 0 < length (asks t) \<and> 0 < length (bids t)
        \<and> \<not> (\<exists>a b. get_min_ask_price t = Inr a \<and> get_max_bid_price t = Inr b \<and> b < a))"
proof (cases "asks t")
  case Nil
  then show ?thesis by (simp add: validate_def)
next
  case ca: (Cons x xs)
  show ?thesis
  proof (cases "bids t")
    case Nil
    then show ?thesis by (simp add: validate_def)
  next
    case (Cons y ys)
    with ca show ?thesis
      by (cases x; cases y)
         (simp add: validate_def get_min_ask_price_def get_max_bid_price_def sd_first_key_def)
  qed
qed

subsection \<open>Rejection and resting of a limit order\<close>

lemma submit_limit_order_rejected_buy_iff:
  "(\<exists>r s'. submit_limit_order s owner True p v = (Returned (None, r), s'))
     = (\<exists>m. get_max_bid_price s = Inr m \<and> p \<le> m)"
proof (cases "\<exists>m. get_max_bid_price s = Inr m \<and> p \<le> m")
  case True
  then obtain m where "get_max_bid_price s = Inr m" "p \<le> m" by blast
  from submit_limit_order_reject_buy[OF this] True show ?thesis by simp
next
  case False
  from submit_limit_order_accept_buy[OF False] False show ?thesis by simp
qed

lemma submit_limit_order_rejected_sell_iff:
  "(\<exists>r s'. submit_limit_order s owner False p v = (Returned (None, r), s'))
     = (\<exists>m. get_min_ask_price s = Inr m \<and> m \<le> p)"
proof (cases "\<exists>m. get_min_ask_price s = Inr m \<and> m \<le> p")
  case True
  then obtain m where "get_min_ask_price s = Inr m" "m \<le> p" by blast
  from submit_limit_order_reject_sell[OF this] True show ?thesis by simp
next
  case False
  from submit_limit_order_accept_sell[OF False] False show ?thesis by simp
qed

lemma submit_limit_order_rejected_unchanged:
  assumes "submit_limit_order s owner b p v = (Returned (None, r), s')"
  shows "s' = s \<and> r \<noteq> None"
proof (cases b)
  case True
  show ?thesis
  proof (cases "\<exists>m. get_max_bid_price s = Inr m \<and> p \<le> m")
    case rej: True
    then obtain m where "get_max_bid_price s = Inr m" "p \<le> m" by blast
    from submit_limit_order_reject_buy[OF this] assms True show ?thesis by auto
  next
    case False
    from submit_limit_order_accept_buy[OF False] assms True show ?thesis by simp
  qed
next
  case nb: False
  show ?thesis
  proof (cases "\<exists>m. get_min_ask_price s = Inr m \<and> m \<le> p")
    case rej: True
    then obtain m where "get_min_ask_price s = Inr m" "m \<le> p" by blast
    from submit_limit_order_reject_sell[OF this] assms nb show ?thesis by auto
  next
    case False
    from submit_limit_order_accept_sell[OF False] assms nb show ?thesis by simp
  qed
qed

lemma submit_limit_order_rests_buy:
  assumes "\<not> (\<exists>m. get_max_bid_price s = Inr m \<and> p \<le> m)"
  shows "\<exists>s'. submit_limit_order s owner True p v = (Returned (Some (uuid_next s), None), s')
           \<and> sd_getitem (asks s') p =
               Inr ((case sd_getitem (asks s) p of Inr q \<Rightarrow> q | Inl e \<Rightarrow> [])
                    @ [\<lparr>owner_id = owner, is_buy = True, price = p, volume = v,
                         comment = [], order_id = uuid_next s\<rparr>])
           \<and> (\<forall>k. k \<noteq> p \<longrightarrow> sd_getitem (asks s') k = sd_getitem (asks s) k)
           \<and> bids s' = bids s
           \<and> long_volume s' = long_volume s + v \<and> short_volume s' = short_volume s"
proof (cases "sd_contains (asks s) p")
  case True
  then obtain q where q: "sd_getitem (asks s) p = Inr q" using sd_contains_getitem by blast
  show ?thesis
    unfolding submit_limit_order_accept_buy[OF assms]
    using True q by (simp add: sd_getitem_mutate sd_getitem_mutate_other)
next
  case False
  show ?thesis
    unfolding submit_limit_order_accept_buy[OF assms]
    using False sd_not_contains_getitem[OF False]
    by (simp add: sd_getitem_setitem sd_getitem_setitem_other)
qed

lemma submit_limit_order_rests_sell:
  assumes "\<not> (\<exists>m. get_min_ask_price s = Inr m \<and> m \<le> p)"
  shows "\<exists>s'. submit_limit_order s owner False p v = (Returned (Some (uuid_next s), None), s')
           \<and> sd_getitem (bids s') p =
               Inr ((case sd_getitem (bids s) p of Inr q \<Rightarrow> q | Inl e \<Rightarrow> [])
                    @ [\<lparr>owner_id = owner, is_buy = False, price = p, volume = v,
                         comment = [], order_id = uuid_next s\<rparr>])
           \<and> (\<forall>k. k \<noteq> p \<longrightarrow> sd_getitem (bids s') k = sd_getitem (bids s) k)
           \<and> asks s' = asks s
           \<and> short_volume s' = short_volume s + v \<and> long_volume s' = long_volume s"
proof (cases "sd_contains (bids s) p")
  case True
  then obtain q where q: "sd_getitem (bids s) p = Inr q" using sd_contains_getitem by blast
  show ?thesis
    unfolding submit_limit_order_accept_sell[OF assms]
    using True q by (simp add: sd_getitem_mutate sd_getitem_mutate_other)
next
  case False
  show ?thesis
    unfolding submit_limit_order_accept_sell[OF assms]
    using False sd_not_contains_getitem[OF False]
    by (simp add: sd_getitem_setitem sd_getitem_setitem_other)
qed

lemma str_int_5: "str_int 5 = ''5''" by (simp add: str_int_def digit_char_def)
lemma str_int_10: "str_int 10 = ''10''" by (simp add: str_int_def digit_char_def)

lemma submit_market_order_rejected_unchanged:
  assumes "submit_market_order s owner b vol = Some (Returned (None, r), ds, s')"
  shows "s' = s \<and> ds = [] \<and> r \<noteq> None"
  using assms by (cases rule: submit_market_order_cases) auto

lemma str_int_7: "str_int 7 = ''7''" by (simp add: str_int_def digit_char_def)

subsection \<open>Volume accounting of one call\<close>

lemma submit_limit_order_volume:
  assumes "submit_limit_order s owner b p v = (out, s')"
  shows "(\<exists>r. out = Returned (None, r) \<and> s' = s)
       \<or> (\<exists>oid. out = Returned (Some oid, None)
             \<and> long_volume s' + short_volume s' = long_volume s + short_volume s + v)"
proof (cases b)
  case True
  show ?thesis
  proof (cases "\<exists>m. get_max_bid_price s = Inr m \<and> p \<le> m")
    case rej: True
    then obtain m where "get_max_bid_price s = Inr m" "p \<le> m" by blast
    from submit_limit_order_reject_buy[OF this] assms True show ?thesis by auto
  next
    case False
    from submit_limit_order_accept_buy[OF False] assms True show ?thesis by auto
  qed
next
  case nb: False
  show ?thesis
  proof (cases "\<exists>m. get_min_ask_price s = Inr m \<and> m \<le> p")
    case rej: True
    then obtain m where "get_min_ask_price s = Inr m" "m \<le> p" by blast
    from submit_limit_order_reject_sell[OF this] assms nb show ?thesis by auto
  next
    case False
    from submit_limit_order_accept_sell[OF False] assms nb show ?thesis by auto
  qed
qed

lemma submit_market_order_volume:
  assumes "submit_market_order s owner b v = Some (out, ds, s')"
  shows "long_volume s' + short_volume s'
           = long_volume s + short_volume s - sum_list (map Deal.volume ds)"
  using assms
proof (cases rule: submit_market_order_cases)
  case (filled pl q ids)
  from match_level_trace[OF filled(5)] obtain new bd where
    "ds = [] @ new" "ids = [] @ map deal_id new"
    "0 = v - sum_list (map Deal.volume new)" "\<forall>d \<in> set new. Deal.price d = pl"
    and s': "s' = s\<lparr>uuid_next := uuid_next s + 2 * length new, bids := bd,
                 short_volume := short_volume s - sum_list (map Deal.volume new)\<rparr>"
    and keys: "map fst bd = map fst (bids s)"
    by (elim exE conjE)
  then show ?thesis by simp
qed simp_all

lemma run_ops_conserves:
  assumes "run_ops ops s L = Some (s', L')" "book_ok s"
  shows "book_ok s'
       \<and> long_volume s' + short_volume s' - accepted L' + sum_list (map Deal.volume (matched L'))
           = long_volume s + short_volume s - accepted L + sum_list (map Deal.volume (matched L))"
  using assms
proof (induction ops s L rule: run_ops.induct)
  case (1 s L)
  then show ?case by simp
next
  case (2 owner b p v ops s L)
  obtain out s1 where lo: "submit_limit_order s owner b p v = (out, s1)"
    by (cases "submit_limit_order s owner b p v") auto
  have ok1: "book_ok s1" by (rule book_ok_limit[OF "2.prems"(2) lo])
  from submit_limit_order_volume[OF lo]
  show ?case
  proof (elim disjE exE conjE)
    fix r assume out: "out = Returned (None, r)" and same: "s1 = s"
    from "2.prems"(1) lo out
    have run: "run_ops ops s1 (L\<lparr>submitted := submitted L + v\<rparr>) = Some (s', L')" by simp
    from "2.IH"(1)[OF lo[symmetric] out refl refl run ok1] same show ?thesis by simp
  next
    fix oid assume out: "out = Returned (Some oid, None)"
      and vol: "long_volume s1 + short_volume s1 = long_volume s + short_volume s + v"
    from "2.prems"(1) lo out
    have run: "run_ops ops s1 (L\<lparr>submitted := submitted L + v, accepted := accepted L + v\<rparr>)
                 = Some (s', L')" by simp
    from "2.IH"(2)[OF lo[symmetric] out refl refl run ok1] vol show ?thesis by simp
  qed
next
  case (3 owner b v ops s L)
  from "3.prems"(1) obtain out ds s1 where
    mo: "submit_market_order s owner b v = Some (out, ds, s1)"
    by (cases "submit_market_order s owner b v") auto
  have ok1: "book_ok s1" by (rule book_ok_market[OF "3.prems"(2) mo])
  note vol = submit_market_order_volume[OF mo]
  show ?case
  proof (cases out)
    case (Raised e)
    with "3.prems"(1) mo have "s' = s1" "L' = L\<lparr>matched := matched L @ ds\<rparr>" by simp_all
    with ok1 vol show ?thesis by simp
  next
    case (Returned r)
    with "3.prems"(1) mo
    have run: "run_ops ops s1 (L\<lparr>matched := matched L @ ds\<rparr>) = Some (s', L')" by simp
    from "3.IH"[OF mo refl Returned refl run ok1] vol show ?thesis by simp
  qed
qed

lemma script_accounting_run:
  "run_ops script_accounting init ledger0 =
     Some (\<lparr>bids = [(101, [\<lparr>owner_id = ''alice'', is_buy = False, price = 101, volume = 6,
                               comment = [], order_id = 0\<rparr>])],
            asks = [], long_num_ords = 0, short_num_ords = 0,
            short_volume = 6, long_volume = 0, deals = [], orders = [], uuid_next = 3\<rparr>,
           \<lparr>submitted = 13, accepted = 10,
            matched = [\<lparr>Deal.volume = 4, Deal.price = 101, order_id_client = 1,
                         order_id_market = 0, Deal.comment = [], deal_id = 2\<rparr>]\<rparr>)"
  by (simp add: script_accounting_def init_eq ledger0_def eval_limit eval_market)

subsection \<open>Queues are in the order of submission\<close>

lemma in_submission_order_alt:
  "in_submission_order s =
     ((\<forall>(k, q) \<in> set (bids s). queue_ok (uuid_next s) q)
      \<and> (\<forall>(k, q) \<in> set (asks s). queue_ok (uuid_next s) q))"
  by (auto simp: in_submission_order_def queue_ok_def)

lemma queue_ok_mono: "queue_ok n q \<Longrightarrow> n \<le> n' \<Longrightarrow> queue_ok n' q"
  by (auto simp: queue_ok_def)

lemma queue_ok_append:
  "queue_ok n q \<Longrightarrow> order_id x = n \<Longrightarrow> queue_ok (Suc n) (q @ [x])"
  by (auto simp: queue_ok_def sorted_wrt_append less_Suc_eq)

lemma queue_ok_tl: "queue_ok n (x # q) \<Longrightarrow> queue_ok n q"
  by (auto simp: queue_ok_def)

lemma queue_ok_head_volume:
  "queue_ok n (x # q) \<Longrightarrow> queue_ok n (x\<lparr>volume := w\<rparr> # q)"
  by (auto simp: queue_ok_def)

lemma sd_setitem_set: "set (sd_setitem kf k v d) \<subseteq> insert (k, v) (set d)"
proof (induction d)
  case Nil
  show ?case by simp
next
  case (Cons a d)
  obtain k' v' where a: "a = (k', v')" by (cases a)
  show ?case using Cons.IH unfolding a by auto
qed

lemma store_ok_mono:
  "\<forall>(k, q) \<in> set d. queue_ok n q \<Longrightarrow> n \<le> n' \<Longrightarrow> \<forall>(k, q) \<in> set d. queue_ok n' q"
  using queue_ok_mono by blast

lemma store_ok_mutate:
  assumes "\<forall>(k, q) \<in> set d. queue_ok n q" "\<And>q. (k, q) \<in> set d \<Longrightarrow> queue_ok n (f q)"
  shows "\<forall>(k', q') \<in> set (sd_mutate k f d). queue_ok n q'"
proof (clarify)
  fix k' q' assume "(k', q') \<in> set (sd_mutate k f d)"
  from sd_mutate_set[OF this] assms show "queue_ok n q'" by auto
qed

lemma store_ok_setitem:
  assumes "\<forall>(k, q) \<in> set d. queue_ok n q" "queue_ok n v"
  shows "\<forall>(k', q') \<in> set (sd_setitem kf k v d). queue_ok n q'"
  using assms sd_setitem_set[of kf k v d] by auto

lemma store_ok_insert:
  assumes ok: "\<forall>(k, q) \<in> set d. queue_ok n q" and x: "order_id x = n"
  shows "\<forall>(k', q') \<in> set (if \<not> sd_contains d p then sd_setitem kf p [x] d
                           else sd_mutate p (\<lambda>q. q @ [x]) d). queue_ok (Suc n) q'"
proof (cases "sd_contains d p")
  case True
  have "\<forall>(k', q') \<in> set (sd_mutate p (\<lambda>q. q @ [x]) d). queue_ok (Suc n) q'"
  proof (rule store_ok_mutate)
    show "\<forall>(k, q) \<in> set d. queue_ok (Suc n) q" using store_ok_mono[OF ok] by simp
    fix q assume "(p, q) \<in> set d"
    with ok have "queue_ok n q" by auto
    then show "queue_ok (Suc n) (q @ [x])" using x by (rule queue_ok_append)
  qed
  with True show ?thesis by simp
next
  case False
  have "\<forall>(k', q') \<in> set (sd_setitem kf p [x] d). queue_ok (Suc n) q'"
  proof (rule store_ok_setitem)
    show "\<forall>(k, q) \<in> set d. queue_ok (Suc n) q" using store_ok_mono[OF ok] by simp
    show "queue_ok (Suc n) [x]" using x by (simp add: queue_ok_def)
  qed
  with False show ?thesis by simp
qed

lemma in_submission_order_init: "in_submission_order init"
  by (simp add: in_submission_order_def init_eq)

lemma in_submission_order_limit:
  assumes ok: "in_submission_order s" and run: "submit_limit_order s owner b p v = (out, s')"
  shows "in_submission_order s'"
proof (cases b)
  case True
  show ?thesis
  proof (cases "\<exists>m. get_max_bid_price s = Inr m \<and> p \<le> m")
    case rej: True
    then obtain m where "get_max_bid_price s = Inr m" "p \<le> m" by blast
    from submit_limit_order_reject_buy[OF this] run True ok show ?thesis by simp
  next
    case False
    let ?x = "\<lparr>owner_id = owner, is_buy = True, price = p, volume = v,
               comment = [], order_id = uuid_next s\<rparr>"
    from ok have b0: "\<forall>(k, q) \<in> set (bids s). queue_ok (uuid_next s) q"
      and a0: "\<forall>(k, q) \<in> set (asks s). queue_ok (uuid_next s) q"
      by (simp_all add: in_submission_order_alt)
    have a1: "\<forall>(k', q') \<in> set (if \<not> sd_contains (asks s) p then sd_setitem asks_key p [?x] (asks s)
                           else sd_mutate p (\<lambda>q. q @ [?x]) (asks s)).
                queue_ok (Suc (uuid_next s)) q'"
      by (rule store_ok_insert[OF a0]) simp
    have b1: "\<forall>(k, q) \<in> set (bids s). queue_ok (Suc (uuid_next s)) q"
      using store_ok_mono[OF b0] by simp
    from submit_limit_order_accept_buy[OF False] run True
    have "s' = s\<lparr>uuid_next := Suc (uuid_next s), long_volume := long_volume s + v,
              asks := (if \<not> sd_contains (asks s) p then sd_setitem asks_key p [?x] (asks s)
                       else sd_mutate p (\<lambda>q. q @ [?x]) (asks s))\<rparr>"
      by (simp add: Let_def)
    with a1 b1 show ?thesis by (simp add: in_submission_order_alt)
  qed
next
  case nb: False
  show ?thesis
  proof (cases "\<exists>m. get_min_ask_price s = Inr m \<and> m \<le> p")
    case rej: True
    then obtain m where "get_min_ask_price s = Inr m" "m \<le> p" by blast
    from submit_limit_order_reject_sell[OF this] run nb ok show ?thesis by simp
  next
    case False
    let ?x = "\<lparr>owner_id = owner, is_buy = False, price = p, volume = v,
               comment = [], order_id = uuid_next s\<rparr>"
    from ok have b0: "\<forall>(k, q) \<in> set (bids s). queue_ok (uuid_next s) q"
      and a0: "\<forall>(k, q) \<in> set (asks s). queue_ok (uuid_next s) q"
      by (simp_all add: in_submission_order_alt)
    have b1: "\<forall>(k', q') \<in> set (if \<not> sd_contains (bids s) p then sd_setitem bids_key p [?x] (bids s)
                           else sd_mutate p (\<lambda>q. q @ [?x]) (bids s)).
                queue_ok (Suc (uuid_next s)) q'"
      by (rule store_ok_insert[OF b0]) simp
    have a1: "\<forall>(k, q) \<in> set (asks s). queue_ok (Suc (uuid_next s)) q"
      using store_ok_mono[OF a0] by simp
    from submit_limit_order_accept_sell[OF False] run nb
    have "s' = s\<lparr>uuid_next := Suc (uuid_next s), short_volume := short_volume s + v,
              bids := (if \<not> sd_contains (bids s) p then sd_setitem bids_key p [?x] (bids s)
                       else sd_mutate p (\<lambda>q. q @ [?x]) (bids s))\<rparr>"
      by (simp add: Let_def)
    with a1 b1 show ?thesis by (simp add: in_submission_order_alt)
  qed
qed

lemma match_level_submission_order:
  assumes "match_level self owner b pl vol ids ds = (ex, vol', ids', ds', self')"
      and "in_submission_order self"
  shows "in_submission_order self'"
proof (rule match_level_rule[OF assms(1),
        where J = "\<lambda>v i d s. in_submission_order s"
          and Q = "\<lambda>ex v i d s. in_submission_order s"], goal_cases)
  case 1
  show ?case by (rule assms(2))
next
  case (2 v i d s hd_ord rest v1 i1 d1 s1)
  let ?f = "\<lambda>q::Order list. if v < volume hd_ord
                then hd_ord\<lparr>volume := volume hd_ord - v\<rparr> # rest else rest"
  from 2(1) have b0: "\<forall>(k, q) \<in> set (bids s). queue_ok (uuid_next s) q"
      and a0: "\<forall>(k, q) \<in> set (asks s). queue_ok (uuid_next s) q"
    by (simp_all add: in_submission_order_alt)
  from sd_getitem_set[OF 2(2)] b0 have hq: "queue_ok (uuid_next s) (hd_ord # rest)" by auto
  have fq: "queue_ok (uuid_next s) (?f q)" for q
    using queue_ok_tl[OF hq] queue_ok_head_volume[OF hq] by simp
  have b1: "\<forall>(k', q') \<in> set (sd_mutate pl ?f (bids s)). queue_ok (uuid_next s) q'"
    by (rule store_ok_mutate[OF b0 fq])
  have s1: "s1 = s\<lparr>uuid_next := Suc (Suc (uuid_next s)), bids := sd_mutate pl ?f (bids s),
                    short_volume := short_volume s - min (volume hd_ord) v\<rparr>"
    using 2(3) by (simp add: fill_head_eq)
  have "in_submission_order s1"
    unfolding in_submission_order_alt s1
    using store_ok_mono[OF b1, of "Suc (Suc (uuid_next s))"]
          store_ok_mono[OF a0, of "Suc (Suc (uuid_next s))"]
    by simp
  then show ?case by simp
qed auto

lemma in_submission_order_market:
  assumes ok: "in_submission_order s"
      and run: "submit_market_order s owner b v = Some (out, ds, s')"
  shows "in_submission_order s'"
  using run
proof (cases rule: submit_market_order_cases)
  case (filled pl q ids)
  from match_level_submission_order[OF filled(5) ok] show ?thesis .
qed (use ok in simp_all)

lemma reachable_in_submission_order: "reachable s \<Longrightarrow> in_submission_order s"
  by (induction rule: reachable.induct)
     (auto intro: in_submission_order_init in_submission_order_limit in_submission_order_market)

lemma book_queue_eq:
  "book_queue =
     \<lparr>bids = [(10, [\<lparr>owner_id = ''alice'', is_buy = False, price = 10, volume = 5,
                       comment = [], order_id = 0\<rparr>,
                     \<lparr>owner_id = ''dan'', is_buy = False, price = 10, volume = 5,
                       comment = [], order_id = 2\<rparr>]),
              (9, [\<lparr>owner_id = ''bob'', is_buy = False, price = 9, volume = 5,
                       comment = [], order_id = 1\<rparr>])],
      asks = [], long_num_ords = 0, short_num_ords = 0,
      short_volume = 15, long_volume = 0, deals = [], orders = [], uuid_next = 3\<rparr>"
  by (simp add: book_queue_def book_two_levels_eq eval_limit)

lemma reachable_book_queue: "reachable book_queue"
  unfolding book_queue_def
  by (rule reachable_limit[OF reachable_book_two_levels surjective_pairing])

section \<open>The claims\<close>

text \<open>
  Naming. The specification calls the store whose best price is its highest the buy side
  and the store whose best price is its lowest the sell side; in the source these are
  \<open>bids\<close> (ordered by \<open>-x\<close>) and \<open>asks\<close>. So the best buy price is
  \<open>get_max_bid_price\<close> and the best sell price is \<open>get_min_ask_price\<close>, as in
  \<open>validate\<close>. The source rests an order with \<open>is_buy\<close> in \<open>asks\<close> and counts it in
  \<open>long_volume\<close>, rests an order without \<open>is_buy\<close> in \<open>bids\<close> and counts it in
  \<open>short_volume\<close>, and a buy market order consumes \<open>bids\<close>.
\<close>

subsection \<open>C1: a market order walks on to the next price level and returns\<close>

text \<open>
  C1 says that every buy market order whose volume does not exceed the resting volume of
  the consumed side returns, moving on to the next-best price level when a level is
  exhausted. The source pops the last order of a level and keeps the level's key, so the
  outer loop reads the same, now empty, level forever. On the reachable book with sell
  orders of volume 5 at prices 10 and 9, a buy market order of volume 7 (at most the
  resting 10) never returns.
\<close>

theorem market_order_past_first_level_never_returns:
  "reachable book_two_levels \<and> 7 \<le> short_volume book_two_levels
   \<and> submit_market_order book_two_levels ''taker'' True 7 = None"
  using reachable_book_two_levels by (simp add: book_two_levels_eq eval_market)

subsection \<open>C2: no price level maps to an empty queue\<close>

text \<open>
  C2 says that after every mutating operation no price level maps to an empty queue: a
  fill that pops the last order of a level removes the level. The source never removes a
  key. On the reachable book with one sell order of volume 5 at price 10, a buy market
  order of volume 5 returns one deal and leaves the level 10 in \<open>bids\<close> with an empty
  queue.
\<close>

theorem full_fill_keeps_empty_level:
  "reachable book_one_sell
   \<and> submit_market_order book_one_sell ''taker'' True 5 =
       Some (Returned (Some [2], None),
             [\<lparr>Deal.volume = 5, Deal.price = 10, order_id_client = 1, order_id_market = 0,
               Deal.comment = [], deal_id = 2\<rparr>],
             book_one_sell\<lparr>uuid_next := 3, bids := [(10, [])], short_volume := 0\<rparr>)"
  using reachable_book_one_sell by (simp add: book_one_sell_eq eval_market)


subsection \<open>C3: the book is never crossed, and \<open>validate\<close> asserts it\<close>

text \<open>
  C3: after every operation, if both stores are non-empty then the best sell price
  (\<open>get_min_ask_price\<close>) is strictly greater than the best buy price
  (\<open>get_max_bid_price\<close>), and \<open>validate\<close> asserts exactly this condition. For every
  reachable state the condition holds and \<open>validate\<close> returns; and on any state
  \<open>validate\<close> fails with its third message exactly when the two cached totals are right,
  both stores are non-empty and the condition is false.
\<close>

theorem no_cross_invariant:
  assumes "reachable s"
  shows "(0 < length (asks s) \<and> 0 < length (bids s) \<longrightarrow>
           (\<exists>a b. get_min_ask_price s = Inr a \<and> get_max_bid_price s = Inr b \<and> b < a))
       \<and> validate s = Returned ()
       \<and> (\<forall>t. (validate t = Raised (AssertionError ''ASKS and BIDS are mismatched!''))
              = (short_volume t = get_total_short_volume t
                 \<and> long_volume t = get_total_long_volume t
                 \<and> 0 < length (asks t) \<and> 0 < length (bids t)
                 \<and> \<not> (\<exists>a b. get_min_ask_price t = Inr a \<and> get_max_bid_price t = Inr b
                             \<and> b < a)))"
proof -
  from assms have ok: "book_ok s" by (rule reachable_book_ok)
  have nc: "0 < length (asks s) \<and> 0 < length (bids s) \<longrightarrow>
           (\<exists>a b. get_min_ask_price s = Inr a \<and> get_max_bid_price s = Inr b \<and> b < a)"
    using book_ok_no_cross[OF ok] by blast
  have val: "validate s = Returned ()"
  proof (cases "0 < length (asks s) \<and> 0 < length (bids s)")
    case True
    with nc obtain a b where "get_min_ask_price s = Inr a" "get_max_bid_price s = Inr b" "b < a"
      by blast
    with ok True show ?thesis by (simp add: validate_def book_ok_def)
  next
    case False
    with ok show ?thesis by (auto simp: validate_def book_ok_def)
  qed
  from nc val validate_mismatch_iff show ?thesis by blast
qed

theorem no_cross_invariant_witness:
  "reachable book_both \<and> 0 < length (asks book_both) \<and> 0 < length (bids book_both)
   \<and> get_min_ask_price book_both = Inr 20 \<and> get_max_bid_price book_both = Inr 10
   \<and> validate book_both = Returned ()"
  using no_cross_invariant[OF reachable_book_both] reachable_book_both
  by (simp add: book_both_eq get_min_ask_price_def get_max_bid_price_def sd_first_key_def)

subsection \<open>C4: which limit orders are rejected, and where an accepted one rests\<close>

text \<open>
  C4 says that a buy limit order is rejected exactly when its price is at or below the
  best sell price, a sell limit order exactly when its price is at or above the best buy
  price, and that an accepted order rests on its own side (buy orders on the buy book).
  The source compares a buy order with \<open>get_max_bid_price\<close>, the best buy price, and rests
  it in \<open>asks\<close>. Counterexample to C4: on the book with \<open>bids = {10}\<close> and \<open>asks = {20}\<close> a buy
  limit order at 15, below the best sell price 20, is accepted, and it rests in \<open>asks\<close>
  while \<open>bids\<close> is unchanged.
\<close>

theorem buy_limit_below_best_sell_rests_in_asks:
  "get_min_ask_price book_both = Inr 20
   \<and> submit_limit_order book_both ''dave'' True 15 1 =
       (Returned (Some 2, None),
        book_both\<lparr>uuid_next := 3, long_volume := 6,
          asks := [(15, [\<lparr>owner_id = ''dave'', is_buy = True, price = 15, volume = 1,
                          comment = [], order_id = 2\<rparr>]),
                   (20, [\<lparr>owner_id = ''carol'', is_buy = True, price = 20, volume = 5,
                          comment = [], order_id = 1\<rparr>])]\<rparr>)"
  by (simp add: book_both_eq eval_limit)

text \<open>
  C4 as amended: a buy limit order is rejected exactly when \<open>bids\<close> is non-empty and its
  price is at or below \<open>get_max_bid_price\<close>; a sell limit order exactly when \<open>asks\<close> is
  non-empty and its price is at or above \<open>get_min_ask_price\<close>; the reason string cites
  the order's price and that conflicting price; a rejected call changes nothing; an
  accepted buy order is appended to the tail of the queue at its price in \<open>asks\<close>, an
  accepted sell order to the tail of the queue at its price in \<open>bids\<close> (the level is
  created if absent), and the other levels and the other store are unchanged.
\<close>

theorem limit_order_crossing_check:
  "((\<exists>r s'. submit_limit_order s owner True p v = (Returned (None, r), s'))
       = (\<exists>m. get_max_bid_price s = Inr m \<and> p \<le> m))
   \<and> ((\<exists>r s'. submit_limit_order s owner False p v = (Returned (None, r), s'))
       = (\<exists>m. get_min_ask_price s = Inr m \<and> m \<le> p))
   \<and> (get_max_bid_price s = Inr m \<and> p \<le> m \<longrightarrow>
        submit_limit_order s owner True p v =
          (Returned (None, Some (''Rejected order ask price '' @ [CHR 0x27] @ str_int p
                       @ [CHR 0x27] @ '', lower than '' @ str_int m @ ''.'')), s))
   \<and> (get_min_ask_price s = Inr m \<and> m \<le> p \<longrightarrow>
        submit_limit_order s owner False p v =
          (Returned (None, Some (''Rejected order bid price '' @ [CHR 0x27] @ str_int p
                       @ [CHR 0x27] @ '', higher than '' @ str_int m @ ''.'')), s))
   \<and> (\<not> (\<exists>m. get_max_bid_price s = Inr m \<and> p \<le> m) \<longrightarrow>
        (\<exists>s'. submit_limit_order s owner True p v = (Returned (Some (uuid_next s), None), s')
           \<and> sd_getitem (asks s') p =
               Inr ((case sd_getitem (asks s) p of Inr q \<Rightarrow> q | Inl e \<Rightarrow> [])
                    @ [\<lparr>owner_id = owner, is_buy = True, price = p, volume = v,
                         comment = [], order_id = uuid_next s\<rparr>])
           \<and> (\<forall>k. k \<noteq> p \<longrightarrow> sd_getitem (asks s') k = sd_getitem (asks s) k)
           \<and> bids s' = bids s))
   \<and> (\<not> (\<exists>m. get_min_ask_price s = Inr m \<and> m \<le> p) \<longrightarrow>
        (\<exists>s'. submit_limit_order s owner False p v = (Returned (Some (uuid_next s), None), s')
           \<and> sd_getitem (bids s') p =
               Inr ((case sd_getitem (bids s) p of Inr q \<Rightarrow> q | Inl e \<Rightarrow> [])
                    @ [\<lparr>owner_id = owner, is_buy = False, price = p, volume = v,
                         comment = [], order_id = uuid_next s\<rparr>])
           \<and> (\<forall>k. k \<noteq> p \<longrightarrow> sd_getitem (bids s') k = sd_getitem (bids s) k)
           \<and> asks s' = asks s))"
proof (intro conjI impI)
  show "(\<exists>r s'. submit_limit_order s owner True p v = (Returned (None, r), s'))
       = (\<exists>m. get_max_bid_price s = Inr m \<and> p \<le> m)"
    by (rule submit_limit_order_rejected_buy_iff)
  show "(\<exists>r s'. submit_limit_order s owner False p v = (Returned (None, r), s'))
       = (\<exists>m. get_min_ask_price s = Inr m \<and> m \<le> p)"
    by (rule submit_limit_order_rejected_sell_iff)
next
  assume "get_max_bid_price s = Inr m \<and> p \<le> m"
  then show "submit_limit_order s owner True p v =
          (Returned (None, Some (''Rejected order ask price '' @ [CHR 0x27] @ str_int p
                       @ [CHR 0x27] @ '', lower than '' @ str_int m @ ''.'')), s)"
    using submit_limit_order_reject_buy by blast
next
  assume "get_min_ask_price s = Inr m \<and> m \<le> p"
  then show "submit_limit_order s owner False p v =
          (Returned (None, Some (''Rejected order bid price '' @ [CHR 0x27] @ str_int p
                       @ [CHR 0x27] @ '', higher than '' @ str_int m @ ''.'')), s)"
    using submit_limit_order_reject_sell by blast
next
  assume "\<not> (\<exists>m. get_max_bid_price s = Inr m \<and> p \<le> m)"
  from submit_limit_order_rests_buy[OF this, of owner v]
  show "\<exists>s'. submit_limit_order s owner True p v = (Returned (Some (uuid_next s), None), s')
           \<and> sd_getitem (asks s') p =
               Inr ((case sd_getitem (asks s) p of Inr q \<Rightarrow> q | Inl e \<Rightarrow> [])
                    @ [\<lparr>owner_id = owner, is_buy = True, price = p, volume = v,
                         comment = [], order_id = uuid_next s\<rparr>])
           \<and> (\<forall>k. k \<noteq> p \<longrightarrow> sd_getitem (asks s') k = sd_getitem (asks s) k)
           \<and> bids s' = bids s"
    by blast
next
  assume "\<not> (\<exists>m. get_min_ask_price s = Inr m \<and> m \<le> p)"
  from submit_limit_order_rests_sell[OF this, of owner v]
  show "\<exists>s'. submit_limit_order s owner False p v = (Returned (Some (uuid_next s), None), s')
           \<and> sd_getitem (bids s') p =
               Inr ((case sd_getitem (bids s) p of Inr q \<Rightarrow> q | Inl e \<Rightarrow> [])
                    @ [\<lparr>owner_id = owner, is_buy = False, price = p, volume = v,
                         comment = [], order_id = uuid_next s\<rparr>])
           \<and> (\<forall>k. k \<noteq> p \<longrightarrow> sd_getitem (bids s') k = sd_getitem (bids s) k)
           \<and> asks s' = asks s"
    by blast
qed

theorem limit_order_crossing_check_witness:
  "get_max_bid_price book_one_sell = Inr 10 \<and> (5::int) \<le> 10
   \<and> submit_limit_order book_one_sell ''dave'' True 5 1 =
       (Returned (None, Some ''Rejected order ask price '5', lower than 10.''), book_one_sell)
   \<and> \<not> (\<exists>m. get_min_ask_price book_one_sell = Inr m \<and> m \<le> 10)
   \<and> (\<exists>s'. submit_limit_order book_one_sell ''erin'' False 10 3 = (Returned (Some 1, None), s')
         \<and> sd_getitem (bids s') 10 =
             Inr [\<lparr>owner_id = ''alice'', is_buy = False, price = 10, volume = 5,
                    comment = [], order_id = 0\<rparr>,
                  \<lparr>owner_id = ''erin'', is_buy = False, price = 10, volume = 3,
                    comment = [], order_id = 1\<rparr>])"
proof -
  have m: "get_max_bid_price book_one_sell = Inr 10"
    by (simp add: book_one_sell_eq get_max_bid_price_def sd_first_key_def)
  have a: "\<not> (\<exists>m. get_min_ask_price book_one_sell = Inr m \<and> m \<le> 10)"
    by (simp add: book_one_sell_eq get_min_ask_price_def sd_first_key_def)
  have q: "sd_getitem (bids book_one_sell) 10 =
             Inr [\<lparr>owner_id = ''alice'', is_buy = False, price = 10, volume = 5,
                    comment = [], order_id = 0\<rparr>]"
    and u: "uuid_next book_one_sell = 1"
    by (simp_all add: book_one_sell_eq sd_getitem_def)
  from limit_order_crossing_check[of book_one_sell "''dave''" 5 1 10] m
  have r: "submit_limit_order book_one_sell ''dave'' True 5 1 =
       (Returned (None, Some ''Rejected order ask price '5', lower than 10.''), book_one_sell)"
    by (simp add: str_int_5 str_int_10)
  from limit_order_crossing_check[of book_one_sell "''erin''" 10 3 10] a q u
  have "\<exists>s'. submit_limit_order book_one_sell ''erin'' False 10 3 = (Returned (Some 1, None), s')
         \<and> sd_getitem (bids s') 10 =
             Inr [\<lparr>owner_id = ''alice'', is_buy = False, price = 10, volume = 5,
                    comment = [], order_id = 0\<rparr>,
                  \<lparr>owner_id = ''erin'', is_buy = False, price = 10, volume = 3,
                    comment = [], order_id = 1\<rparr>]"
    by auto
  with m a r show ?thesis by simp
qed

subsection \<open>C5: a rejected submission changes nothing\<close>

text \<open>
  C5: every rejected submission (a crossing limit order, a market order whose volume
  exceeds the resting volume of the consumed store, a market order for the unsupported
  taker side) returns a pair of \<open>None\<close> and a reason and leaves the whole state unchanged.
  Whenever either method returns \<open>None\<close> as its first component, the reason is present and
  the state is the one before the call (and no deal was made); and each of the three
  conditions does give such a rejection.
\<close>

theorem rejection_is_noop:
  "(submit_limit_order s owner b p v = (Returned (None, r), s') \<longrightarrow> s' = s \<and> r \<noteq> None)
   \<and> (get_max_bid_price s = Inr m \<and> p \<le> m \<longrightarrow>
        (\<exists>reason. submit_limit_order s owner True p v = (Returned (None, Some reason), s)))
   \<and> (get_min_ask_price s = Inr m \<and> m \<le> p \<longrightarrow>
        (\<exists>reason. submit_limit_order s owner False p v = (Returned (None, Some reason), s)))
   \<and> submit_market_order s owner False vol =
        Some (Returned (None, Some ''Short Market Orders currently not supported!''), [], s)
   \<and> (short_volume s < vol \<longrightarrow>
        submit_market_order s owner True vol =
          Some (Returned (None, Some (''volume='' @ str_int vol @ ''>self._short_volume=''
                                      @ str_int (short_volume s) @ ''!'')), [], s))
   \<and> (submit_market_order s owner b vol = Some (Returned (None, r'), ds, s'') \<longrightarrow>
        s'' = s \<and> ds = [] \<and> r' \<noteq> None)"
proof (intro conjI impI)
  assume "submit_limit_order s owner b p v = (Returned (None, r), s')"
  from submit_limit_order_rejected_unchanged[OF this]
  show "s' = s" and "r \<noteq> None" by simp_all
next
  assume "get_max_bid_price s = Inr m \<and> p \<le> m"
  then show "\<exists>reason. submit_limit_order s owner True p v = (Returned (None, Some reason), s)"
    using submit_limit_order_reject_buy by blast
next
  assume "get_min_ask_price s = Inr m \<and> m \<le> p"
  then show "\<exists>reason. submit_limit_order s owner False p v = (Returned (None, Some reason), s)"
    using submit_limit_order_reject_sell by blast
next
  show "submit_market_order s owner False vol =
        Some (Returned (None, Some ''Short Market Orders currently not supported!''), [], s)"
    by (simp add: submit_market_order_def)
next
  assume "short_volume s < vol"
  then show "submit_market_order s owner True vol =
          Some (Returned (None, Some (''volume='' @ str_int vol @ ''>self._short_volume=''
                                      @ str_int (short_volume s) @ ''!'')), [], s)"
    by (simp add: submit_market_order_def)
next
  assume "submit_market_order s owner b vol = Some (Returned (None, r'), ds, s'')"
  from submit_market_order_rejected_unchanged[OF this]
  show "s'' = s" and "ds = []" and "r' \<noteq> None" by simp_all
qed

theorem rejection_is_noop_witness:
  "get_max_bid_price book_one_sell = Inr 10 \<and> (5::int) \<le> 10
   \<and> (\<exists>reason. submit_limit_order book_one_sell ''dave'' True 5 1
                   = (Returned (None, Some reason), book_one_sell))
   \<and> short_volume book_one_sell < 7
   \<and> submit_market_order book_one_sell ''dave'' True 7 =
        Some (Returned (None, Some ''volume=7>self._short_volume=5!''), [], book_one_sell)
   \<and> submit_market_order book_one_sell ''dave'' False 1 =
        Some (Returned (None, Some ''Short Market Orders currently not supported!''), [],
              book_one_sell)"
proof -
  have m: "get_max_bid_price book_one_sell = Inr 10"
    by (simp add: book_one_sell_eq get_max_bid_price_def sd_first_key_def)
  have sv: "short_volume book_one_sell = 5"
    by (simp add: book_one_sell_eq)
  from rejection_is_noop[of book_one_sell "''dave''" True 5 1 None book_one_sell 10 7
         None "[]" book_one_sell] m sv
  have "(\<exists>reason. submit_limit_order book_one_sell ''dave'' True 5 1
                   = (Returned (None, Some reason), book_one_sell))
      \<and> submit_market_order book_one_sell ''dave'' True 7 =
        Some (Returned (None, Some ''volume=7>self._short_volume=5!''), [], book_one_sell)"
    by (simp add: str_int_5 str_int_7)
  moreover from rejection_is_noop[of book_one_sell "''dave''" True 5 1 None book_one_sell 10 1
         None "[]" book_one_sell]
  have "submit_market_order book_one_sell ''dave'' False 1 =
        Some (Returned (None, Some ''Short Market Orders currently not supported!''), [],
              book_one_sell)"
    by simp
  ultimately show ?thesis using m sv by simp
qed

subsection \<open>C6: conservation of volume\<close>

text \<open>
  C6 says that after limit submissions followed by market executions the two running
  totals add up to the sum of all submitted limit volumes minus twice the sum of the
  volumes of the deals. A deal takes its volume once, from the one resting order, and a
  rejected limit order adds nothing. Counterexample to C6: after a sell limit order of
  volume 10, a rejected buy limit order of volume 3 and a buy market order of volume 4 the
  totals add up to 6, which is neither \<open>13 - 2 * 4\<close> nor \<open>10 - 2 * 4\<close> nor \<open>13 - 4\<close>.
\<close>

theorem volume_after_script_is_not_submitted_minus_twice_matched:
  "run_ops script_accounting init ledger0 =
     Some (\<lparr>bids = [(101, [\<lparr>owner_id = ''alice'', is_buy = False, price = 101, volume = 6,
                               comment = [], order_id = 0\<rparr>])],
            asks = [], long_num_ords = 0, short_num_ords = 0,
            short_volume = 6, long_volume = 0, deals = [], orders = [], uuid_next = 3\<rparr>,
           \<lparr>submitted = 13, accepted = 10,
            matched = [\<lparr>Deal.volume = 4, Deal.price = 101, order_id_client = 1,
                         order_id_market = 0, Deal.comment = [], deal_id = 2\<rparr>]\<rparr>)
   \<and> (0::int) + 6 \<noteq> 13 - 2 * 4 \<and> (0::int) + 6 \<noteq> 10 - 2 * 4 \<and> (0::int) + 6 \<noteq> 13 - 4"
  by (simp add: script_accounting_run)

text \<open>
  C6 as amended: for any script of limit submissions and market executions that runs to
  its end (in any order, so also all limit submissions first), the sum of the two running
  totals, cached or recomputed, equals the sum of the volumes of the accepted limit orders
  minus (once) the sum of the volumes of all deals made.
\<close>

theorem volume_conservation:
  assumes "run_ops ops init ledger0 = Some (s, L)"
  shows "long_volume s + short_volume s
           = accepted L - sum_list (map Deal.volume (matched L))
       \<and> get_total_long_volume s + get_total_short_volume s
           = accepted L - sum_list (map Deal.volume (matched L))"
proof -
  from run_ops_conserves[OF assms book_ok_init]
  have ok: "book_ok s"
    and "long_volume s + short_volume s - accepted L + sum_list (map Deal.volume (matched L))
           = long_volume init + short_volume init - accepted ledger0
             + sum_list (map Deal.volume (matched ledger0))"
    by simp_all
  then have "long_volume s + short_volume s
           = accepted L - sum_list (map Deal.volume (matched L))"
    by (simp add: init_eq ledger0_def)
  with ok show ?thesis by (simp add: book_ok_def)
qed

theorem volume_conservation_witness:
  "run_ops script_accounting init ledger0 \<noteq> None
   \<and> map_option (\<lambda>(s, L). long_volume s + short_volume s)
        (run_ops script_accounting init ledger0) = Some 6
   \<and> map_option (\<lambda>(s, L). accepted L - sum_list (map Deal.volume (matched L)))
        (run_ops script_accounting init ledger0) = Some (10 - 4)"
proof -
  obtain s L where r: "run_ops script_accounting init ledger0 = Some (s, L)"
    and L: "accepted L = 10" "sum_list (map Deal.volume (matched L)) = 4"
    by (simp add: script_accounting_run)
  from volume_conservation[OF r] L have "long_volume s + short_volume s = 6" by simp
  with r L show ?thesis by simp
qed

subsection \<open>C7: price-time priority\<close>

text \<open>
  C7 says that deals at one price are emitted in the order in which the resting orders
  were submitted, and that across price levels a buy market order consumes the
  lowest-priced resting liquidity first. The consumed store \<open>bids\<close> is ordered by \<open>-x\<close>, so
  its first key is its highest price. Counterexample to C7: with resting sell orders at 10
  and at 9, a buy market order of volume 5 deals at price 10 and leaves the order at 9
  untouched.
\<close>

theorem buy_market_order_takes_highest_price_first:
  "map fst (bids book_two_levels) = [10, 9]
   \<and> submit_market_order book_two_levels ''taker'' True 5 =
       Some (Returned (Some [3], None),
             [\<lparr>Deal.volume = 5, Deal.price = 10, order_id_client = 2, order_id_market = 0,
               Deal.comment = [], deal_id = 3\<rparr>],
             book_two_levels\<lparr>uuid_next := 4,
               bids := [(10, []),
                        (9, [\<lparr>owner_id = ''bob'', is_buy = False, price = 9, volume = 5,
                               comment = [], order_id = 1\<rparr>])],
               short_volume := 5\<rparr>)"
  by (simp add: book_two_levels_eq eval_market)

text \<open>
  C7 as amended: for a reachable book and a buy market order that returns its deal
  identifiers, every deal is made at the first key of \<open>bids\<close>, which is the highest price
  in that store, and the deals are made with the orders at the head of that level's queue,
  one deal per order from the head on, so in the order of submission (increasing
  identifiers) of those resting orders. Nothing is said of a market order that exhausts
  a level before it is satisfied (C1).
\<close>

theorem price_time_priority:
  assumes "reachable s"
      and "submit_market_order s owner True v = Some (Returned (Some ids, None), ds, s')"
  shows "\<exists>pl q. get_max_bid_price s = Inr pl \<and> (\<forall>k \<in> set (map fst (bids s)). k \<le> pl)
           \<and> sd_getitem (bids s) pl = Inr q
           \<and> (\<forall>d \<in> set ds. Deal.price d = pl)
           \<and> length ds \<le> length q
           \<and> map order_id_market ds = map order_id (take (length ds) q)
           \<and> sorted_wrt (<) (map order_id_market ds)
           \<and> ids = map deal_id ds"
  using assms(2)
proof (cases rule: submit_market_order_cases)
  case (filled pl q ids1)
  from assms(1) have ok: "book_ok s" and so: "in_submission_order s"
    by (rule reachable_book_ok, rule reachable_in_submission_order)
  from ok have sb: "sd_sorted bids_key (bids s)" by (simp add: book_ok_def)
  have top: "\<forall>k \<in> set (map fst (bids s)). k \<le> pl"
  proof
    fix k assume "k \<in> set (map fst (bids s))"
    from sd_sorted_first[OF sb filled(3)[unfolded get_max_bid_price_def] this]
    show "k \<le> pl" by (simp add: bids_key_def)
  qed
  from match_level_trace[OF filled(5)] obtain new bd where
    "ds = [] @ new" "ids1 = [] @ map deal_id new"
    "0 = v - sum_list (map Deal.volume new)" and pr: "\<forall>d \<in> set new. Deal.price d = pl"
    and "s' = s\<lparr>uuid_next := uuid_next s + 2 * length new, bids := bd,
                 short_volume := short_volume s - sum_list (map Deal.volume new)\<rparr>"
    and "map fst bd = map fst (bids s)"
    by (elim exE conjE)
  then have new: "new = ds" and ids1: "ids1 = map deal_id ds" by simp_all
  from match_level_fifo[OF filled(5) filled(4)]
  have len: "length ds \<le> length q"
    and fifo: "map order_id_market ds = map order_id (take (length ds) q)"
    by simp_all
  from sd_getitem_set[OF filled(4)] so have "sorted_wrt (<) (map order_id q)"
    by (auto simp: in_submission_order_def)
  then have "sorted_wrt (<) (take (length ds) (map order_id q))"
    by (rule sorted_wrt_take)
  with fifo have srt: "sorted_wrt (<) (map order_id_market ds)" by (simp add: take_map)
  from filled(6) ids1 have "ids = map deal_id ds" by simp
  with filled(3,4) top pr new len fifo srt show ?thesis by blast
qed simp_all

theorem price_time_priority_witness:
  "map fst (bids book_queue) = [10, 9]
   \<and> map (map order_id \<circ> snd) (bids book_queue) = [[0, 2], [1]]
   \<and> submit_market_order book_queue ''taker'' True 7 =
       Some (Returned (Some [4, 6], None),
             [\<lparr>Deal.volume = 5, Deal.price = 10, order_id_client = 3, order_id_market = 0,
               Deal.comment = [], deal_id = 4\<rparr>,
              \<lparr>Deal.volume = 2, Deal.price = 10, order_id_client = 5, order_id_market = 2,
               Deal.comment = [], deal_id = 6\<rparr>],
             book_queue\<lparr>uuid_next := 7,
               bids := [(10, [\<lparr>owner_id = ''dan'', is_buy = False, price = 10, volume = 3,
                                comment = [], order_id = 2\<rparr>]),
                        (9, [\<lparr>owner_id = ''bob'', is_buy = False, price = 9, volume = 5,
                               comment = [], order_id = 1\<rparr>])],
               short_volume := 8\<rparr>)"
proof -
  have run: "submit_market_order book_queue ''taker'' True 7 =
       Some (Returned (Some [4, 6], None),
             [\<lparr>Deal.volume = 5, Deal.price = 10, order_id_client = 3, order_id_market = 0,
               Deal.comment = [], deal_id = 4\<rparr>,
              \<lparr>Deal.volume = 2, Deal.price = 10, order_id_client = 5, order_id_market = 2,
               Deal.comment = [], deal_id = 6\<rparr>],
             book_queue\<lparr>uuid_next := 7,
               bids := [(10, [\<lparr>owner_id = ''dan'', is_buy = False, price = 10, volume = 3,
                                comment = [], order_id = 2\<rparr>]),
                        (9, [\<lparr>owner_id = ''bob'', is_buy = False, price = 9, volume = 5,
                               comment = [], order_id = 1\<rparr>])],
               short_volume := 8\<rparr>)"
    by (simp add: book_queue_eq eval_market)
  from price_time_priority[OF reachable_book_queue run]
  have "\<exists>pl q. get_max_bid_price book_queue = Inr pl
         \<and> sd_getitem (bids book_queue) pl = Inr q
         \<and> map order_id (take 2 q) = [0, 2]"
    by (auto simp: numeral_2_eq_2)
  with run show ?thesis by (simp add: book_queue_eq)
qed

subsection \<open>C8: a partial fill\<close>

text \<open>
  C8 says that on a book holding exactly one resting order, an opposite-side market order
  of smaller volume leaves one resting order at the same price with the volume reduced by
  the fill, decrements the side's running total by the fill and makes one deal of that
  volume at that price. The market order opposite to a resting buy order is a sell order,
  which the source refuses before it looks at the book; and a buy order rests in \<open>asks\<close>,
  which no market order consumes. Counterexample to C8: on the book holding one buy order
  of volume 10, a sell market order of volume 4 is rejected, and so is a buy market order of
  volume 4; no deal is made and the resting order keeps its volume.
\<close>

theorem market_order_against_one_resting_buy_order_fills_nothing:
  "asks book_one_buy = [(100, [\<lparr>owner_id = ''carol'', is_buy = True, price = 100, volume = 10,
                                 comment = [], order_id = 0\<rparr>])]
   \<and> bids book_one_buy = []
   \<and> submit_market_order book_one_buy ''taker'' False 4 =
       Some (Returned (None, Some ''Short Market Orders currently not supported!''), [],
             book_one_buy)
   \<and> submit_market_order book_one_buy ''taker'' True 4 =
       Some (Returned (None, Some ''volume=4>self._short_volume=0!''), [], book_one_buy)"
  by (simp add: book_one_buy_eq submit_market_order_def str_int_def digit_char_def)

text \<open>
  C8 as amended: when \<open>bids\<close> consists of one price level holding one order (a resting sell
  order, at its own price) and the cached total is that order's volume, a buy market order
  of strictly smaller volume returns one deal identifier; the one deal has the requested
  volume and the resting order's price; afterwards the level holds that one order with its
  volume reduced by the requested volume, and \<open>short_volume\<close> is decremented by it.
\<close>

theorem partial_fill:
  assumes "bids s = [(p, [ord])]" and "price ord = p"
      and "short_volume s = volume ord" and "v < volume ord"
  shows "submit_market_order s owner True v =
           Some (Returned (Some [Suc (uuid_next s)], None),
                 [\<lparr>Deal.volume = v, Deal.price = price ord, order_id_client = uuid_next s,
                   order_id_market = order_id ord, Deal.comment = [],
                   deal_id = Suc (uuid_next s)\<rparr>],
                 s\<lparr>uuid_next := Suc (Suc (uuid_next s)),
                   bids := [(p, [ord\<lparr>volume := volume ord - v\<rparr>])],
                   short_volume := short_volume s - v\<rparr>)"
proof -
  from assms(1) have top: "get_max_bid_price s = Inr p"
    and q: "sd_getitem (bids s) p = Inr [ord]"
    by (simp_all add: get_max_bid_price_def sd_first_key_def sd_getitem_def)
  from assms(3,4) have le: "v \<le> short_volume s" by simp
  from assms(4) have m: "min (volume ord) v = v" by simp
  have "match_level s owner True p v [] [] =
          (Return [Suc (uuid_next s)], 0, [Suc (uuid_next s)],
           [\<lparr>Deal.volume = v, Deal.price = p, order_id_client = uuid_next s,
             order_id_market = order_id ord, Deal.comment = [],
             deal_id = Suc (uuid_next s)\<rparr>],
           s\<lparr>uuid_next := Suc (Suc (uuid_next s)),
             bids := [(p, [ord\<lparr>volume := volume ord - v\<rparr>])],
             short_volume := short_volume s - v\<rparr>)"
    using q assms(1,4) m
    by (subst match_level.simps) (simp add: fill_head_eq sd_mutate_def)
  with submit_market_order_accepted[OF le top, of owner] assms(2) show ?thesis by simp
qed

theorem partial_fill_witness:
  "bids book_one_sell = [(10, [\<lparr>owner_id = ''alice'', is_buy = False, price = 10, volume = 5,
                                 comment = [], order_id = 0\<rparr>])]
   \<and> short_volume book_one_sell = 5 \<and> (3::int) < 5
   \<and> submit_market_order book_one_sell ''taker'' True 3 =
        Some (Returned (Some [2], None),
              [\<lparr>Deal.volume = 3, Deal.price = 10, order_id_client = 1, order_id_market = 0,
                Deal.comment = [], deal_id = 2\<rparr>],
              book_one_sell\<lparr>uuid_next := 3,
                bids := [(10, [\<lparr>owner_id = ''alice'', is_buy = False, price = 10, volume = 2,
                                 comment = [], order_id = 0\<rparr>])],
                short_volume := 2\<rparr>)"
proof -
  have b: "bids book_one_sell = [(10, [\<lparr>owner_id = ''alice'', is_buy = False, price = 10,
                                 volume = 5, comment = [], order_id = 0\<rparr>])]"
    and sv: "short_volume book_one_sell = 5" and u: "uuid_next book_one_sell = 1"
    by (simp_all add: book_one_sell_eq)
  from partial_fill[OF b, of 3 "''taker''"] sv u
  have "submit_market_order book_one_sell ''taker'' True 3 =
        Some (Returned (Some [2], None),
              [\<lparr>Deal.volume = 3, Deal.price = 10, order_id_client = 1, order_id_market = 0,
                Deal.comment = [], deal_id = 2\<rparr>],
              book_one_sell\<lparr>uuid_next := 3,
                bids := [(10, [\<lparr>owner_id = ''alice'', is_buy = False, price = 10, volume = 2,
                                 comment = [], order_id = 0\<rparr>])],
                short_volume := 2\<rparr>)"
    by (simp add: numeral_2_eq_2 numeral_3_eq_3)
  with b sv show ?thesis by simp
qed

subsection \<open>C9: every deal has strictly positive volume\<close>

text \<open>
  C9 says that every deal made by an accepted market order on a reachable book has
  strictly positive volume, also for a market order of volume 0. The source checks
  neither the requested volume nor the volume of a limit order. Counterexample to C9: on
  the reachable book with one sell order of volume 5 a buy market order of volume 0 is
  accepted and makes one deal of volume 0; and on the reachable book whose first resting
  order has volume 0 a buy market order of volume 3 makes deals of volumes 0 and 3.
\<close>

theorem market_orders_make_deals_of_volume_zero:
  "reachable book_one_sell
   \<and> submit_market_order book_one_sell ''taker'' True 0 =
        Some (Returned (Some [2], None),
              [\<lparr>Deal.volume = 0, Deal.price = 10, order_id_client = 1, order_id_market = 0,
                Deal.comment = [], deal_id = 2\<rparr>],
              book_one_sell\<lparr>uuid_next := 3\<rparr>)
   \<and> reachable book_zero_first
   \<and> map_option (map Deal.volume \<circ> fst \<circ> snd)
        (submit_market_order book_zero_first ''taker'' True 3) = Some [0, 3]"
  using reachable_book_one_sell reachable_book_zero_first
  by (simp add: book_one_sell_eq book_zero_first_eq eval_market)

text \<open>
  C9 as amended: when every order resting in \<open>bids\<close> has strictly positive volume and the
  requested volume is strictly positive, every deal made by a market order that comes back
  has strictly positive volume, and every order still resting in \<open>bids\<close> has strictly
  positive volume.
\<close>

theorem deals_have_positive_volume:
  assumes "\<forall>(k, q) \<in> set (bids s). \<forall>x \<in> set q. 0 < volume x"
      and "0 < v"
      and "submit_market_order s owner b v = Some (out, ds, s')"
  shows "(\<forall>d \<in> set ds. 0 < Deal.volume d)
       \<and> (\<forall>(k, q) \<in> set (bids s'). \<forall>x \<in> set q. 0 < volume x)"
  using assms(3)
proof (cases rule: submit_market_order_cases)
  case (filled pl q ids)
  from match_level_positive[OF filled(5) assms(2,1)] show ?thesis by simp
qed (use assms(1) in simp_all)

theorem deals_have_positive_volume_witness:
  "map (map volume \<circ> snd) (bids book_queue) = [[5, 5], [5]] \<and> (0::int) < 7
   \<and> map_option (map Deal.volume \<circ> fst \<circ> snd)
        (submit_market_order book_queue ''taker'' True 7) = Some [5, 2]
   \<and> map_option (map (map volume \<circ> snd) \<circ> bids \<circ> snd \<circ> snd)
        (submit_market_order book_queue ''taker'' True 7) = Some [[3], [5]]"
proof -
  have pos: "\<forall>(k, q) \<in> set (bids book_queue). \<forall>x \<in> set q. 0 < volume x"
    by (simp add: book_queue_eq)
  obtain out ds s' where
    run: "submit_market_order book_queue ''taker'' True 7 = Some (out, ds, s')"
    and ds: "map Deal.volume ds = [5, 2]"
    and s': "map (map volume \<circ> snd) (bids s') = [[3], [5]]"
    by (simp add: book_queue_eq eval_market)
  from deals_have_positive_volume[OF pos _ run]
  have "\<forall>d \<in> set ds. 0 < Deal.volume d" by simp
  with run ds s' show ?thesis by (simp add: book_queue_eq)
qed

subsection \<open>C10: a limit order of volume at most 0\<close>

text \<open>
  C10 says that every limit order with volume at most 0 is accepted: no error, no
  rejection, a fresh identifier, the order rested and the running total increased by the
  volume. The crossing check does not look at the volume, so it rejects such an order like
  any other. Counterexample to C10: on the book with one sell order at price 10, a buy limit
  order of volume 0 at price 5 is rejected.
\<close>

theorem crossing_limit_order_of_volume_zero_is_rejected:
  "get_max_bid_price book_one_sell = Inr 10
   \<and> submit_limit_order book_one_sell ''dave'' True 5 0 =
       (Returned (None, Some ''Rejected order ask price '5', lower than 10.''), book_one_sell)"
  by (simp add: book_one_sell_eq eval_limit str_int_5 str_int_10)

text \<open>
  C10 as amended: a limit order with volume at most 0 never raises an error, and when it
  does not cross the book (the check of C4) it is accepted like any other: the call returns
  the next identifier of the supply, the order is appended to the queue at its price level
  (in \<open>asks\<close> for a buy order, in \<open>bids\<close> for a sell order), and that side's cached
  running total is increased by the volume submitted, so it does not grow.
\<close>

theorem nonpositive_volume_limit_order_rests:
  assumes "v \<le> 0"
  shows "(\<forall>e. fst (submit_limit_order s owner b p v) \<noteq> Raised e)
   \<and> (\<not> (\<exists>m. get_max_bid_price s = Inr m \<and> p \<le> m) \<longrightarrow>
        (\<exists>s'. submit_limit_order s owner True p v = (Returned (Some (uuid_next s), None), s')
           \<and> sd_getitem (asks s') p =
               Inr ((case sd_getitem (asks s) p of Inr q \<Rightarrow> q | Inl e \<Rightarrow> [])
                    @ [\<lparr>owner_id = owner, is_buy = True, price = p, volume = v,
                         comment = [], order_id = uuid_next s\<rparr>])
           \<and> long_volume s' = long_volume s + v \<and> short_volume s' = short_volume s
           \<and> long_volume s' \<le> long_volume s))
   \<and> (\<not> (\<exists>m. get_min_ask_price s = Inr m \<and> m \<le> p) \<longrightarrow>
        (\<exists>s'. submit_limit_order s owner False p v = (Returned (Some (uuid_next s), None), s')
           \<and> sd_getitem (bids s') p =
               Inr ((case sd_getitem (bids s) p of Inr q \<Rightarrow> q | Inl e \<Rightarrow> [])
                    @ [\<lparr>owner_id = owner, is_buy = False, price = p, volume = v,
                         comment = [], order_id = uuid_next s\<rparr>])
           \<and> short_volume s' = short_volume s + v \<and> long_volume s' = long_volume s
           \<and> short_volume s' \<le> short_volume s))"
proof (intro conjI impI allI)
  fix e
  show "fst (submit_limit_order s owner b p v) \<noteq> Raised e"
  proof (cases b)
    case True
    show ?thesis
    proof (cases "\<exists>m. get_max_bid_price s = Inr m \<and> p \<le> m")
      case rej: True
      then obtain m where "get_max_bid_price s = Inr m" "p \<le> m" by blast
      from submit_limit_order_reject_buy[OF this] True show ?thesis by simp
    next
      case False
      from submit_limit_order_accept_buy[OF False] True show ?thesis by simp
    qed
  next
    case nb: False
    show ?thesis
    proof (cases "\<exists>m. get_min_ask_price s = Inr m \<and> m \<le> p")
      case rej: True
      then obtain m where "get_min_ask_price s = Inr m" "m \<le> p" by blast
      from submit_limit_order_reject_sell[OF this] nb show ?thesis by simp
    next
      case False
      from submit_limit_order_accept_sell[OF False] nb show ?thesis by simp
    qed
  qed
next
  assume "\<not> (\<exists>m. get_max_bid_price s = Inr m \<and> p \<le> m)"
  from submit_limit_order_rests_buy[OF this, of owner v] assms
  show "\<exists>s'. submit_limit_order s owner True p v = (Returned (Some (uuid_next s), None), s')
           \<and> sd_getitem (asks s') p =
               Inr ((case sd_getitem (asks s) p of Inr q \<Rightarrow> q | Inl e \<Rightarrow> [])
                    @ [\<lparr>owner_id = owner, is_buy = True, price = p, volume = v,
                         comment = [], order_id = uuid_next s\<rparr>])
           \<and> long_volume s' = long_volume s + v \<and> short_volume s' = short_volume s
           \<and> long_volume s' \<le> long_volume s"
    by auto
next
  assume "\<not> (\<exists>m. get_min_ask_price s = Inr m \<and> m \<le> p)"
  from submit_limit_order_rests_sell[OF this, of owner v] assms
  show "\<exists>s'. submit_limit_order s owner False p v = (Returned (Some (uuid_next s), None), s')
           \<and> sd_getitem (bids s') p =
               Inr ((case sd_getitem (bids s) p of Inr q \<Rightarrow> q | Inl e \<Rightarrow> [])
                    @ [\<lparr>owner_id = owner, is_buy = False, price = p, volume = v,
                         comment = [], order_id = uuid_next s\<rparr>])
           \<and> short_volume s' = short_volume s + v \<and> long_volume s' = long_volume s
           \<and> short_volume s' \<le> short_volume s"
    by auto
qed

theorem nonpositive_volume_limit_order_rests_witness:
  "(- 3 :: int) \<le> 0
   \<and> \<not> (\<exists>m. get_min_ask_price book_one_sell = Inr m \<and> m \<le> 10)
   \<and> (\<exists>s'. submit_limit_order book_one_sell ''erin'' False 10 (- 3)
               = (Returned (Some 1, None), s')
         \<and> sd_getitem (bids s') 10 =
             Inr [\<lparr>owner_id = ''alice'', is_buy = False, price = 10, volume = 5,
                    comment = [], order_id = 0\<rparr>,
                  \<lparr>owner_id = ''erin'', is_buy = False, price = 10, volume = - 3,
                    comment = [], order_id = 1\<rparr>]
         \<and> short_volume s' = 2)"
proof -
  have v: "(- 3 :: int) \<le> 0" by simp
  have a: "\<not> (\<exists>m. get_min_ask_price book_one_sell = Inr m \<and> m \<le> 10)"
    by (simp add: book_one_sell_eq get_min_ask_price_def sd_first_key_def)
  have q: "sd_getitem (bids book_one_sell) 10 =
             Inr [\<lparr>owner_id = ''alice'', is_buy = False, price = 10, volume = 5,
                    comment = [], order_id = 0\<rparr>]"
    and u: "uuid_next book_one_sell = 1" and sv: "short_volume book_one_sell = 5"
    by (simp_all add: book_one_sell_eq sd_getitem_def)
  from nonpositive_volume_limit_order_rests[OF v, of book_one_sell "''erin''" False 10] a q u sv
  have "\<exists>s'. submit_limit_order book_one_sell ''erin'' False 10 (- 3)
               = (Returned (Some 1, None), s')
         \<and> sd_getitem (bids s') 10 =
             Inr [\<lparr>owner_id = ''alice'', is_buy = False, price = 10, volume = 5,
                    comment = [], order_id = 0\<rparr>,
                  \<lparr>owner_id = ''erin'', is_buy = False, price = 10, volume = - 3,
                    comment = [], order_id = 1\<rparr>]
         \<and> short_volume s' = 2"
    by auto
  with v a show ?thesis by simp
qed

end
